theory Spec2Isabelle
  imports
    Complex_Main
    "HOL-Library.Multiset"
    "HOL-Library.List_Lexorder"
    "HOL-Library.Char_ord"
begin

section \<open>File categorizer: classifier, scanner, store and circuit breaker\<close>

text \<open>
  A shallow embedding of the scan-and-reconcile pipeline of the file categorizer:
  \<^item> \<^verbatim>\<open>src/core/models.py\<close>: the category enumeration, the extension table and the records;
  \<^item> \<^verbatim>\<open>src/core/error_handler.py\<close>: the circuit breaker;
  \<^item> \<^verbatim>\<open>src/core/database.py\<close>: the single table \<^verbatim>\<open>files\<close> and the operations on it;
  \<^item> \<^verbatim>\<open>src/web/blueprints/api.py\<close>: the validation done by the HTTP search handler;
  \<^item> \<^verbatim>\<open>src/core/scanner.py\<close>: the directory walk.

  Strings are byte strings. A path object is the list of its components. Failures of the
  SQLite engine itself (locks, I/O errors, corruption) are outside the model: every SQL
  statement does what SQL says it does.
\<close>

subsection \<open>Paths (the part of pathlib the code uses)\<close>

type_synonym path = "string list"

definition Path_name :: "path \<Rightarrow> string" where
  \<comment> \<open>\<^verbatim>\<open>Path.name\<close>: the final component, the empty string when there is none.\<close>
  "Path_name p = (if p = [] then [] else last p)"

fun rfind :: "char \<Rightarrow> string \<Rightarrow> int" where
  \<comment> \<open>\<^verbatim>\<open>str.rfind\<close>: the index of the last occurrence, \<open>-1\<close> when there is none.\<close>
  "rfind c [] = - 1"
| "rfind c (x # xs) =
     (let r = rfind c xs in if 0 \<le> r then r + 1 else if x = c then 0 else - 1)"

definition Path_suffix :: "path \<Rightarrow> string" where
  \<comment> \<open>\<^verbatim>\<open>Path.suffix\<close>: \<^verbatim>\<open>i = name.rfind('.')\<close>; \<^verbatim>\<open>name[i:]\<close> if \<^verbatim>\<open>0 < i < len(name) - 1\<close>, else \<^verbatim>\<open>''\<close>.\<close>
  "Path_suffix p =
     (let name = Path_name p; i = rfind CHR ''.'' name
      in if 0 < i \<and> i < int (length name) - 1 then drop (nat i) name else [])"

definition startswith :: "string \<Rightarrow> string \<Rightarrow> bool" where
  "startswith s pre = (take (length pre) s = pre)"

subsection \<open>Upper and lower case\<close>

text \<open>
  \<^verbatim>\<open>str.lower()\<close> on the ASCII letters. No key of the extension table contains a character
  that a non-ASCII character lowers to, so for the lookup this is what Python computes.
\<close>

definition lower_char :: "char \<Rightarrow> char" where
  "lower_char c =
     (case map_of (zip ''ABCDEFGHIJKLMNOPQRSTUVWXYZ'' ''abcdefghijklmnopqrstuvwxyz'') c of
        Some d \<Rightarrow> d | None \<Rightarrow> c)"

definition upper_char :: "char \<Rightarrow> char" where
  "upper_char c =
     (case map_of (zip ''abcdefghijklmnopqrstuvwxyz'' ''ABCDEFGHIJKLMNOPQRSTUVWXYZ'') c of
        Some d \<Rightarrow> d | None \<Rightarrow> c)"

definition lower :: "string \<Rightarrow> string" where
  "lower s = map lower_char s"

definition upper :: "string \<Rightarrow> string" where
  "upper s = map upper_char s"

subsection \<open>Categories (models.py)\<close>

datatype FileCategory = GRAPHICS | LIGHTBURN | VECTOR

definition FileCategory_value :: "FileCategory \<Rightarrow> string" where
  "FileCategory_value c =
     (case c of GRAPHICS \<Rightarrow> ''graphics'' | LIGHTBURN \<Rightarrow> ''lightburn'' | VECTOR \<Rightarrow> ''vector'')"

definition FileCategory_of_value :: "string \<Rightarrow> FileCategory option" where
  \<comment> \<open>\<^verbatim>\<open>FileCategory(s)\<close>; \<open>None\<close> stands for the \<^verbatim>\<open>ValueError\<close>.\<close>
  "FileCategory_of_value s =
     (if s = ''graphics'' then Some GRAPHICS
      else if s = ''lightburn'' then Some LIGHTBURN
      else if s = ''vector'' then Some VECTOR
      else None)"

definition extension_table :: "(string \<times> FileCategory) list" where
  "extension_table =
     [(''.jpg'', GRAPHICS), (''.jpeg'', GRAPHICS), (''.png'', GRAPHICS), (''.gif'', GRAPHICS),
      (''.bmp'', GRAPHICS), (''.tiff'', GRAPHICS), (''.tif'', GRAPHICS), (''.webp'', GRAPHICS),
      (''.ico'', GRAPHICS),
      (''.lbrn'', LIGHTBURN), (''.lbrn2'', LIGHTBURN),
      (''.ai'', VECTOR), (''.svg'', VECTOR), (''.eps'', VECTOR)]"

definition get_extensions :: "string \<rightharpoonup> FileCategory" where
  "get_extensions = map_of extension_table"

definition categorize_file :: "path \<Rightarrow> FileCategory option" where
  "categorize_file file_path = get_extensions (lower (Path_suffix file_path))"



subsection \<open>Exceptions (exceptions.py)\<close>

datatype exn_class =
    FileCategorizeError | FileSystemError | DatabaseError | ScanError | ValidationError
  | ConfigurationError | PermissionError | PathNotFoundError | DatabaseConnectionError
  | DatabaseCorruptionError | ScanCancelledError | RetryableError | RetryableDatabaseError
  | RetryableFileSystemError | OtherException

datatype exn = Exn exn_class string

fun exn_bases :: "exn_class \<Rightarrow> exn_class list" where
  \<comment> \<open>The direct base classes inside the package.\<close>
  "exn_bases FileCategorizeError = []"
| "exn_bases FileSystemError = [FileCategorizeError]"
| "exn_bases DatabaseError = [FileCategorizeError]"
| "exn_bases ScanError = [FileCategorizeError]"
| "exn_bases ValidationError = [FileCategorizeError]"
| "exn_bases ConfigurationError = [FileCategorizeError]"
| "exn_bases PermissionError = [FileSystemError]"
| "exn_bases PathNotFoundError = [FileSystemError]"
| "exn_bases DatabaseConnectionError = [DatabaseError]"
| "exn_bases DatabaseCorruptionError = [DatabaseError]"
| "exn_bases ScanCancelledError = [ScanError]"
| "exn_bases RetryableError = [FileCategorizeError]"
| "exn_bases RetryableDatabaseError = [DatabaseError, RetryableError]"
| "exn_bases RetryableFileSystemError = [FileSystemError, RetryableError]"
| "exn_bases OtherException = []"

definition issubclass :: "exn_class \<Rightarrow> exn_class \<Rightarrow> bool" where
  \<comment> \<open>The hierarchy is three levels deep.\<close>
  "issubclass c d =
     (c = d \<or> d \<in> set (exn_bases c) \<or> (\<exists>b \<in> set (exn_bases c). d \<in> set (exn_bases b)))"

fun isinstance :: "exn \<Rightarrow> exn_class \<Rightarrow> bool" where
  "isinstance (Exn c msg) d = issubclass c d"

fun exn_str :: "exn \<Rightarrow> string" where
  "exn_str (Exn c msg) = msg"

subsection \<open>The circuit breaker (error_handler.py)\<close>

datatype breaker_state = Closed | Open | HalfOpen

text \<open>Clock readings (\<^verbatim>\<open>time.time()\<close>) and the timeout are real numbers.\<close>

record CircuitBreaker =
  failure_threshold :: int
  recovery_timeout :: real
  failure_count :: int
  last_failure_time :: "real option"
  state :: breaker_state

definition CircuitBreaker_init :: "int \<Rightarrow> real \<Rightarrow> CircuitBreaker" where
  "CircuitBreaker_init threshold timeout =
     \<lparr>failure_threshold = threshold, recovery_timeout = timeout, failure_count = 0,
      last_failure_time = None, state = Closed\<rparr>"

definition should_attempt_reset :: "CircuitBreaker \<Rightarrow> real \<Rightarrow> bool" where
  "should_attempt_reset cb now =
     (case last_failure_time cb of
        None \<Rightarrow> True
      | Some t \<Rightarrow> recovery_timeout cb \<le> now - t)"

definition on_success :: "CircuitBreaker \<Rightarrow> CircuitBreaker" where
  "on_success cb = cb\<lparr>failure_count := 0, state := Closed\<rparr>"

definition on_failure :: "CircuitBreaker \<Rightarrow> real \<Rightarrow> CircuitBreaker" where
  "on_failure cb now =
     (let cb1 = cb\<lparr>failure_count := failure_count cb + 1, last_failure_time := Some now\<rparr>
      in if failure_threshold cb1 \<le> failure_count cb1 then cb1\<lparr>state := Open\<rparr> else cb1)"

definition breaker_open_error :: exn where
  "breaker_open_error = Exn FileCategorizeError ''Circuit breaker is open''"

text \<open>
  \<^verbatim>\<open>CircuitBreaker.call\<close>. The wrapped function acts on a world \<open>'w\<close> and either raises
  or returns; \<open>t_check\<close> is the clock when the reset is considered, \<open>t_fail\<close> the clock
  when a failure is recorded. The result is what the call raises or returns, the breaker
  after the call and the world after the call.
\<close>

definition CircuitBreaker_call ::
  "CircuitBreaker \<Rightarrow> real \<Rightarrow> real \<Rightarrow> ('w \<Rightarrow> (exn + 'a) \<times> 'w) \<Rightarrow> 'w
     \<Rightarrow> (exn + 'a) \<times> CircuitBreaker \<times> 'w" where
  "CircuitBreaker_call cb t_check t_fail func w =
     (if state cb = Open \<and> \<not> should_attempt_reset cb t_check
      then (Inl breaker_open_error, cb, w)
      else
        (let cb1 = (if state cb = Open then cb\<lparr>state := HalfOpen\<rparr> else cb)
         in case func w of
              (Inr result, w') \<Rightarrow> (Inr result, on_success cb1, w')
            | (Inl e, w') \<Rightarrow> (Inl e, on_failure cb1 t_fail, w')))"

text \<open>A sequence of calls, one after the other, each with its clock readings.\<close>

fun call_seq ::
  "CircuitBreaker \<Rightarrow> (real \<times> real \<times> ('w \<Rightarrow> (exn + 'a) \<times> 'w)) list \<Rightarrow> 'w
     \<Rightarrow> (exn + 'a) list \<times> CircuitBreaker \<times> 'w" where
  "call_seq cb [] w = ([], cb, w)"
| "call_seq cb ((t_check, t_fail, func) # rest) w =
     (case CircuitBreaker_call cb t_check t_fail func w of
        (r, cb', w') \<Rightarrow>
          (case call_seq cb' rest w' of (rs, cb'', w'') \<Rightarrow> (r # rs, cb'', w'')))"

definition breaker_q :: "CircuitBreaker \<Rightarrow> nat \<Rightarrow> bool" where
  \<comment> \<open>Between calls: open with the threshold reached, or closed and at most \<open>n\<close> failures
      away from opening.\<close>
  "breaker_q cb n \<longleftrightarrow>
     (state cb = Open \<and> failure_threshold cb \<le> failure_count cb)
     \<or> (state cb = Closed \<and> failure_count cb < failure_threshold cb
         \<and> failure_threshold cb \<le> failure_count cb + int n)"

definition breaker_ok :: "CircuitBreaker \<Rightarrow> bool" where
  \<comment> \<open>What holds of a breaker between calls, from its construction on.\<close>
  "breaker_ok cb \<longleftrightarrow>
     state cb \<noteq> HalfOpen \<and> (state cb = Open \<longrightarrow> failure_threshold cb \<le> failure_count cb)"

subsection \<open>Records and rows (models.py, database.py)\<close>

text \<open>
  A \<^verbatim>\<open>datetime\<close> is a number of microseconds since the epoch; the table stores whole
  seconds, \<^verbatim>\<open>int(d.timestamp())\<close>, which truncates towards zero.
\<close>

type_synonym datetime = int

definition timestamp_int :: "datetime \<Rightarrow> int" where
  "timestamp_int d = (if d < 0 then - ((- d) div 1000000) else d div 1000000)"

definition fromtimestamp :: "int \<Rightarrow> datetime" where
  "fromtimestamp s = s * 1000000"

text \<open>
  The fields of a \<^verbatim>\<open>FileRecord\<close>; \<open>fid\<close> and \<open>fsize\<close> are the attributes \<^verbatim>\<open>id\<close> and
  \<^verbatim>\<open>size\<close>.
\<close>

record FileRecord =
  fid :: string
  path :: string
  filename :: string
  category :: FileCategory
  fsize :: int
  modified_date :: datetime
  scanned_date :: datetime
  exists :: bool

text \<open>
  A row of the table \<^verbatim>\<open>files\<close>. Column \<^verbatim>\<open>category\<close> holds the value string of the
  enumeration and column \<^verbatim>\<open>file_exists\<close> holds 1 or 0; the code writes them from a
  \<^verbatim>\<open>FileCategory\<close> and a \<^verbatim>\<open>bool\<close> only and reads them back with
  \<^verbatim>\<open>FileCategory(...)\<close> and \<^verbatim>\<open>bool(...)\<close>, so the row keeps the typed values.
\<close>

record row =
  c_id :: string
  c_path :: string
  c_filename :: string
  c_category :: FileCategory
  c_size :: int
  c_modified_date :: int
  c_scanned_date :: int
  c_file_exists :: bool

text \<open>
  The table is the list of its rows in rowid order (the order of insertion).
  \<^verbatim>\<open>id TEXT PRIMARY KEY\<close> and \<^verbatim>\<open>path TEXT UNIQUE\<close> are the two constraints.
\<close>

type_synonym files_table = "row list"

definition table_ok :: "files_table \<Rightarrow> bool" where
  "table_ok t \<longleftrightarrow> distinct (map c_id t) \<and> distinct (map c_path t)"


definition row_to_file_record :: "row \<Rightarrow> FileRecord" where
  "row_to_file_record x =
     \<lparr>fid = c_id x, path = c_path x, filename = c_filename x, category = c_category x,
      fsize = c_size x, modified_date = fromtimestamp (c_modified_date x),
      scanned_date = fromtimestamp (c_scanned_date x), exists = c_file_exists x\<rparr>"

subsection \<open>The SQL statements the code issues\<close>



definition update_file_exists :: "files_table \<Rightarrow> bool \<times> string \<Rightarrow> files_table" where
  \<comment> \<open>\<^verbatim>\<open>UPDATE files SET file_exists = ? WHERE id = ?\<close>\<close>
  "update_file_exists t u =
     map (\<lambda>x. if c_id x = snd u then x\<lparr>c_file_exists := fst u\<rparr> else x) t"

definition delete_by_id :: "files_table \<Rightarrow> string \<Rightarrow> files_table" where
  \<comment> \<open>\<^verbatim>\<open>DELETE FROM files WHERE id = ?\<close>\<close>
  "delete_by_id t i = filter (\<lambda>x. c_id x \<noteq> i) t"

definition sql_limit_offset :: "int \<Rightarrow> int \<Rightarrow> 'a list \<Rightarrow> 'a list" where
  \<comment> \<open>\<^verbatim>\<open>LIMIT ? OFFSET ?\<close> in SQLite: a negative limit is no limit, a negative offset is 0.\<close>
  "sql_limit_offset n_limit n_offset xs =
     (let ys = drop (nat n_offset) xs in if n_limit < 0 then ys else take (nat n_limit) ys)"

definition order_by_id :: "files_table \<Rightarrow> files_table" where
  \<comment> \<open>\<^verbatim>\<open>ORDER BY id\<close>: the primary key, compared bytewise.\<close>
  "order_by_id t = sort_key c_id t"

fun sql_like :: "string \<Rightarrow> string \<Rightarrow> bool" where
  \<comment> \<open>\<^verbatim>\<open>text LIKE pattern\<close>, pattern first: \<^verbatim>\<open>%\<close> is any sequence, \<^verbatim>\<open>_\<close> any one character,
      ASCII letters compare without case.\<close>
  "sql_like [] s = (s = [])"
| "sql_like (p # ps) [] = (p = CHR ''%'' \<and> sql_like ps [])"
| "sql_like (p # ps) (c # cs) =
     (if p = CHR ''%'' then sql_like ps (c # cs) \<or> sql_like (p # ps) cs
      else if p = CHR ''_'' then sql_like ps cs
      else lower_char p = lower_char c \<and> sql_like ps cs)"

subsection \<open>add_files_batch\<close>








subsection \<open>search_files\<close>

record SearchCriteria =
  query :: "string option"
  crit_category :: "FileCategory option"
  min_size :: "int option"
  max_size :: "int option"
  modified_after :: "datetime option"
  modified_before :: "datetime option"
  limit :: "int option"
  offset :: int

definition where_clause :: "SearchCriteria \<Rightarrow> row \<Rightarrow> bool" where
  \<comment> \<open>The filters appended to \<^verbatim>\<open>WHERE 1=1\<close>. An empty query string is falsy and adds
      no filter.\<close>
  "where_clause criteria x \<longleftrightarrow>
     (case query criteria of
        None \<Rightarrow> True
      | Some q \<Rightarrow> q = [] \<or> sql_like (''%'' @ q @ ''%'') (c_filename x)
                        \<or> sql_like (''%'' @ q @ ''%'') (c_path x))
     \<and> (case crit_category criteria of None \<Rightarrow> True | Some c \<Rightarrow> c_category x = c)
     \<and> (case min_size criteria of None \<Rightarrow> True | Some m \<Rightarrow> m \<le> c_size x)
     \<and> (case max_size criteria of None \<Rightarrow> True | Some m \<Rightarrow> c_size x \<le> m)
     \<and> (case modified_after criteria of
          None \<Rightarrow> True | Some d \<Rightarrow> timestamp_int d \<le> c_modified_date x)
     \<and> (case modified_before criteria of
          None \<Rightarrow> True | Some d \<Rightarrow> c_modified_date x \<le> timestamp_int d)"

text \<open>
  \<^verbatim>\<open>ORDER BY modified_date DESC\<close> names one sort key and nothing else. What SQL promises
  about the answer is that it holds the selected rows, each once, with the key never
  increasing; the order of rows with equal keys is the engine's choice (a backwards scan
  of the index on \<^verbatim>\<open>modified_date\<close> gives them newest rowid first, a sort of the table
  scan gives them oldest rowid first). The model is therefore a predicate: \<open>ys\<close> is an
  answer to the ordering of \<open>xs\<close>.
\<close>

definition order_by_modified_date_desc :: "row list \<Rightarrow> row list \<Rightarrow> bool" where
  "order_by_modified_date_desc xs ys \<longleftrightarrow>
     mset ys = mset xs \<and> sorted_wrt (\<lambda>a b. c_modified_date b \<le> c_modified_date a) ys"

definition paginate :: "SearchCriteria \<Rightarrow> 'a list \<Rightarrow> 'a list" where
  \<comment> \<open>\<^verbatim>\<open>LIMIT ?\<close> is added when the limit is truthy, \<^verbatim>\<open>OFFSET ?\<close> only inside that
      branch and only when the offset is positive.\<close>
  "paginate criteria xs =
     (case limit criteria of
        None \<Rightarrow> xs
      | Some n \<Rightarrow>
          if n \<noteq> 0
          then (if 0 < offset criteria then sql_limit_offset n (offset criteria) xs
                else sql_limit_offset n 0 xs)
          else xs)"

text \<open>
  \<^verbatim>\<open>DatabaseManager.search_files\<close>. It builds the query and runs it, whatever the criteria
  are. The store counts the queries run on it; the engine's answer to the ordering is the
  parameter \<open>engine_order\<close>, and \<open>engine_answers\<close> says that it is an answer for the
  rows this search selects.
\<close>

record store =
  table :: files_table
  queries_run :: nat

definition search_files ::
  "(row list \<Rightarrow> row list) \<Rightarrow> SearchCriteria \<Rightarrow> store \<Rightarrow> (exn + FileRecord list) \<times> store" where
  "search_files engine_order criteria st =
     (Inr (map row_to_file_record
             (paginate criteria (engine_order (filter (where_clause criteria) (table st))))),
      st\<lparr>queries_run := Suc (queries_run st)\<rparr>)"

definition engine_answers :: "(row list \<Rightarrow> row list) \<Rightarrow> SearchCriteria \<Rightarrow> store \<Rightarrow> bool" where
  "engine_answers engine_order criteria st \<longleftrightarrow>
     order_by_modified_date_desc (filter (where_clause criteria) (table st))
       (engine_order (filter (where_clause criteria) (table st)))"

definition newest_rowid_first :: "row list \<Rightarrow> row list" where
  \<comment> \<open>The answer of a backwards scan of the index on \<^verbatim>\<open>modified_date\<close>.\<close>
  "newest_rowid_first xs = rev (sort_key c_modified_date xs)"

definition oldest_rowid_first :: "row list \<Rightarrow> row list" where
  \<comment> \<open>The answer of a stable sort of the table scan.\<close>
  "oldest_rowid_first xs = sort_key (\<lambda>x. - c_modified_date x) xs"

fun rowid_pos :: "string \<Rightarrow> files_table \<Rightarrow> nat" where
  \<comment> \<open>The position of the row with this id in insertion order.\<close>
  "rowid_pos i [] = 0"
| "rowid_pos i (x # xs) = (if c_id x = i then 0 else Suc (rowid_pos i xs))"

definition ties_in_insertion_order :: "files_table \<Rightarrow> FileRecord list \<Rightarrow> bool" where
  \<comment> \<open>Any two records with equal modified times appear in insertion order.\<close>
  "ties_in_insertion_order t results \<longleftrightarrow>
     sorted_wrt (\<lambda>a b. modified_date a = modified_date b
                      \<longrightarrow> rowid_pos (fid a) t < rowid_pos (fid b) t) results"

definition most_recent_first :: "FileRecord list \<Rightarrow> bool" where
  "most_recent_first results \<longleftrightarrow>
     sorted_wrt (\<lambda>a b. modified_date b \<le> modified_date a) results"

subsection \<open>The HTTP search handler (api.py, get_files)\<close>

definition is_space :: "char \<Rightarrow> bool" where
  \<comment> \<open>The ASCII characters \<^verbatim>\<open>str.strip()\<close> removes.\<close>
  "is_space c \<longleftrightarrow> of_char c \<in> {9, 10, 11, 12, 13, 28, 29, 30, 31, 32 :: nat}"

definition strip :: "string \<Rightarrow> string" where
  "strip s = rev (dropWhile is_space (rev (dropWhile is_space s)))"

record search_args =
  \<comment> \<open>The query string after \<^verbatim>\<open>request.args.get\<close>: a numeric parameter that is absent
      or does not parse is \<open>None\<close>.\<close>
  arg_query :: string
  arg_category :: string
  arg_min_size :: "int option"
  arg_max_size :: "int option"
  arg_limit :: "int option"
  arg_offset :: "int option"

datatype http_body =
    ErrorBody string string
  | FilesBody "FileRecord list" nat int int nat

type_synonym response = "http_body \<times> nat"

definition handle_api_error :: "exn \<Rightarrow> response" where
  "handle_api_error e =
     (if isinstance e ValidationError then (ErrorBody ''Validation error'' (exn_str e), 400)
      else if isinstance e PathNotFoundError then (ErrorBody ''Path not found'' (exn_str e), 404)
      else if isinstance e PermissionError then (ErrorBody ''Permission denied'' (exn_str e), 403)
      else if isinstance e FileSystemError then (ErrorBody ''File system error'' (exn_str e), 400)
      else if isinstance e DatabaseError then (ErrorBody ''Database error'' (exn_str e), 503)
      else if isinstance e ScanError then (ErrorBody ''Scan error'' (exn_str e), 400)
      else (ErrorBody ''Internal server error'' ''An unexpected error occurred'', 500))"

definition get_files_validate :: "search_args \<Rightarrow> exn + SearchCriteria" where
  \<comment> \<open>Everything \<^verbatim>\<open>get_files\<close> does before it asks for the database manager.\<close>
  "get_files_validate args =
     (let q = strip (arg_query args);
          category_str = strip (arg_category args);
          n_min = arg_min_size args;
          n_max = arg_max_size args;
          n_limit = (case arg_limit args of None \<Rightarrow> 50 | Some n \<Rightarrow> n);
          n_offset = (case arg_offset args of None \<Rightarrow> 0 | Some n \<Rightarrow> n)
      in
        if n_limit < 1 \<or> 1000 < n_limit
        then Inl (Exn ValidationError ''Limit must be between 1 and 1000'')
        else if n_offset < 0
        then Inl (Exn ValidationError ''Offset must be non-negative'')
        else if (case n_min of None \<Rightarrow> False | Some m \<Rightarrow> m < 0)
        then Inl (Exn ValidationError ''Minimum size must be non-negative'')
        else if (case n_max of None \<Rightarrow> False | Some m \<Rightarrow> m < 0)
        then Inl (Exn ValidationError ''Maximum size must be non-negative'')
        else if (case (n_min, n_max) of (Some a, Some b) \<Rightarrow> b < a | _ \<Rightarrow> False)
        then Inl (Exn ValidationError ''Minimum size cannot be greater than maximum size'')
        else if category_str \<noteq> [] \<and> FileCategory_of_value category_str = None
        then Inl (Exn ValidationError
                    (''Invalid category: '' @ category_str
                       @ ''. Valid categories: ['graphics', 'lightburn', 'vector']''))
        else Inr \<lparr>query = (if q \<noteq> [] then Some q else None),
                  crit_category =
                    (if category_str \<noteq> [] then FileCategory_of_value category_str else None),
                  min_size = n_min, max_size = n_max,
                  modified_after = None, modified_before = None,
                  limit = Some n_limit, offset = n_offset\<rparr>)"

text \<open>
  \<^verbatim>\<open>get_files\<close>. The store is a world \<open>'w\<close>; \<open>store_search\<close> is everything the handler
  does with it (\<^verbatim>\<open>get_db_manager()\<close> and \<^verbatim>\<open>db.search_files(criteria)\<close>).
\<close>

definition get_files ::
  "(SearchCriteria \<Rightarrow> 'w \<Rightarrow> (exn + FileRecord list) \<times> 'w) \<Rightarrow> search_args \<Rightarrow> 'w
     \<Rightarrow> response \<times> 'w" where
  "get_files store_search args w =
     (case get_files_validate args of
        Inl e \<Rightarrow> (handle_api_error e, w)
      | Inr criteria \<Rightarrow>
          (case store_search criteria w of
             (Inr found, w') \<Rightarrow>
               ((FilesBody found (length found) (offset criteria)
                   (case limit criteria of None \<Rightarrow> 0 | Some n \<Rightarrow> n) (length found), 200), w')
           | (Inl e, w') \<Rightarrow>
               if isinstance e DatabaseError
               then ((FilesBody [] 0 (offset criteria)
                        (case limit criteria of None \<Rightarrow> 0 | Some n \<Rightarrow> n) 0, 200), w')
               else (handle_api_error e, w')))"

subsection \<open>Reconciliation with the file system (database.py)\<close>

text \<open>
  \<^verbatim>\<open>Path(file_path).exists()\<close> is a probe of the file system: it answers, or it raises
  (\<^verbatim>\<open>OSError\<close>, \<^verbatim>\<open>PermissionError\<close>, \<^verbatim>\<open>ValueError\<close>) with a message.
\<close>

type_synonym exists_probe = "string \<Rightarrow> string + bool"

record CleanupResult =
  total_checked :: int
  removed_count :: int
  removed_files :: "string list"
  errors :: "string list"
  dry_run :: bool

definition verify_step ::
  "exists_probe \<Rightarrow> string list \<times> (bool \<times> string) list \<times> string list \<Rightarrow> row
     \<Rightarrow> string list \<times> (bool \<times> string) list \<times> string list" where
  \<comment> \<open>One round of the inner \<^verbatim>\<open>for\<close> of \<^verbatim>\<open>verify_and_update_existence\<close> on
      (updated files, batch updates, errors).\<close>
  "verify_step probe acc x =
     (case acc of
        (updated_files, batch_updates, errs) \<Rightarrow>
          (case probe (c_path x) of
             Inr actual_exists \<Rightarrow>
               if c_file_exists x \<noteq> actual_exists
               then (updated_files @ [c_path x], batch_updates @ [(actual_exists, c_id x)], errs)
               else (updated_files, batch_updates, errs)
           | Inl e \<Rightarrow>
               (updated_files, batch_updates,
                errs @ [''Error checking '' @ c_path x @ '': '' @ e])))"

text \<open>
  The \<^verbatim>\<open>while offset < total_count\<close> loop. With a negative batch size every batch is the
  whole table and the offset never reaches the count, so the loop need not end: the
  result is an option, \<open>None\<close> when it runs forever.
\<close>

partial_function (option) verify_loop ::
  "exists_probe \<Rightarrow> bool \<Rightarrow> int \<Rightarrow> int \<Rightarrow> int \<Rightarrow> files_table \<Rightarrow> string list \<Rightarrow> string list
     \<Rightarrow> int \<Rightarrow> (files_table \<times> string list \<times> string list \<times> int) option" where
  "verify_loop probe dry batch_size total_count n_offset t updated_files errs processed_count =
     (if n_offset < total_count
      then
        (let batch_files = sql_limit_offset batch_size n_offset (order_by_id t)
         in if batch_files = [] then Some (t, updated_files, errs, processed_count)
            else
              (case foldl (verify_step probe) (updated_files, [], errs) batch_files of
                 (updated_files', batch_updates, errs') \<Rightarrow>
                   verify_loop probe dry batch_size total_count (n_offset + batch_size)
                     (if batch_updates \<noteq> [] \<and> \<not> dry
                      then foldl update_file_exists t batch_updates else t)
                     updated_files' errs' (processed_count + int (length batch_files))))
      else Some (t, updated_files, errs, processed_count))"

declare verify_loop.simps [code]

definition verify_and_update_existence ::
  "exists_probe \<Rightarrow> bool \<Rightarrow> int \<Rightarrow> files_table \<Rightarrow> (files_table \<times> CleanupResult) option" where
  "verify_and_update_existence probe dry batch_size t =
     map_option
       (\<lambda>(t', updated_files, errs, processed_count).
          (t', \<lparr>total_checked = processed_count, removed_count = int (length updated_files),
                removed_files = updated_files, errors = errs, dry_run = dry\<rparr>))
       (verify_loop probe dry batch_size (int (length t)) 0 t [] [] 0)"

definition reconciled :: "exists_probe \<Rightarrow> row \<Rightarrow> row" where
  \<comment> \<open>A row with its flag set to what the probe answers; unchanged where the flag agrees
      with the answer or the probe raises.\<close>
  "reconciled probe x =
     (case probe (c_path x) of
        Inr actual_exists \<Rightarrow>
          if c_file_exists x \<noteq> actual_exists then x\<lparr>c_file_exists := actual_exists\<rparr> else x
      | Inl e \<Rightarrow> x)"

definition cleanup_step ::
  "exists_probe \<Rightarrow> string list \<times> string list \<times> string list \<Rightarrow> row
     \<Rightarrow> string list \<times> string list \<times> string list" where
  \<comment> \<open>One round of the inner \<^verbatim>\<open>for\<close> of \<^verbatim>\<open>cleanup_database\<close> on
      (removed files, batch to remove, errors).\<close>
  "cleanup_step probe acc x =
     (case acc of
        (removed, batch_to_remove, errs) \<Rightarrow>
          (case probe (c_path x) of
             Inr actual_exists \<Rightarrow>
               if \<not> actual_exists
               then (removed @ [c_path x], batch_to_remove @ [c_id x], errs)
               else (removed, batch_to_remove, errs)
           | Inl e \<Rightarrow>
               (removed, batch_to_remove,
                errs @ [''Error checking '' @ c_path x @ '': '' @ e])))"

partial_function (option) cleanup_loop ::
  "exists_probe \<Rightarrow> bool \<Rightarrow> int \<Rightarrow> int \<Rightarrow> int \<Rightarrow> files_table \<Rightarrow> string list \<Rightarrow> string list
     \<Rightarrow> int \<Rightarrow> (files_table \<times> string list \<times> string list \<times> int) option" where
  "cleanup_loop probe dry batch_size total_count n_offset t removed errs processed_count =
     (if n_offset < total_count
      then
        (let batch_files =
               sql_limit_offset batch_size n_offset (order_by_id (filter c_file_exists t))
         in if batch_files = [] then Some (t, removed, errs, processed_count)
            else
              (case foldl (cleanup_step probe) (removed, [], errs) batch_files of
                 (removed', batch_to_remove, errs') \<Rightarrow>
                   cleanup_loop probe dry batch_size total_count (n_offset + batch_size)
                     (if batch_to_remove \<noteq> [] \<and> \<not> dry
                      then foldl delete_by_id t batch_to_remove else t)
                     removed' errs' (processed_count + int (length batch_files))))
      else Some (t, removed, errs, processed_count))"

declare cleanup_loop.simps [code]

definition cleanup_database ::
  "exists_probe \<Rightarrow> bool \<Rightarrow> int \<Rightarrow> files_table \<Rightarrow> (files_table \<times> CleanupResult) option" where
  "cleanup_database probe dry batch_size t =
     map_option
       (\<lambda>(t', removed, errs, processed_count).
          (t', \<lparr>total_checked = processed_count, removed_count = int (length removed),
                removed_files = removed, errors = errs, dry_run = dry\<rparr>))
       (cleanup_loop probe dry batch_size (int (length (filter c_file_exists t))) 0 t [] [] 0)"

text \<open>What the loops collect and reach, for the statements about them.\<close>

definition batch_updates_of :: "exists_probe \<Rightarrow> row list \<Rightarrow> (bool \<times> string) list" where
  \<comment> \<open>The updates one batch collects.\<close>
  "batch_updates_of probe xs =
     concat (map (\<lambda>x. case probe (c_path x) of
                          Inr b \<Rightarrow> if c_file_exists x \<noteq> b then [(b, c_id x)] else []
                        | Inl e \<Rightarrow> []) xs)"

definition reconciled_in :: "exists_probe \<Rightarrow> string set \<Rightarrow> row \<Rightarrow> row" where
  \<comment> \<open>The row after the rows with an identifier in \<open>A\<close> have been reconciled.\<close>
  "reconciled_in probe A x = (if c_id x \<in> A then reconciled probe x else x)"

definition missing :: "exists_probe \<Rightarrow> row \<Rightarrow> bool" where
  \<comment> \<open>The probe of the row's path answers that it does not exist.\<close>
  "missing probe x \<longleftrightarrow> probe (c_path x) = Inr False"

subsection \<open>The directory walk (scanner.py)\<close>

text \<open>
  The file system under the scan root is a tree of named nodes: regular files with their
  size and modification time, directories with their entries in enumeration order, and
  everything else (sockets, broken links). A path is relative to the root.
\<close>

datatype fs_node =
    RegularFile string int datetime
  | Directory string "fs_node list"
  | Special string

fun node_name :: "fs_node \<Rightarrow> string" where
  "node_name (RegularFile n sz mt) = n"
| "node_name (Directory n es) = n"
| "node_name (Special n) = n"

fun entries :: "fs_node \<Rightarrow> fs_node list" where
  "entries (Directory n es) = es"
| "entries other = []"

fun lookup :: "fs_node \<Rightarrow> path \<Rightarrow> fs_node option" where
  \<comment> \<open>The node a relative path leads to.\<close>
  "lookup node [] = Some node"
| "lookup node (c # cs) =
     (case find (\<lambda>e. node_name e = c) (entries node) of
        None \<Rightarrow> None
      | Some e \<Rightarrow> lookup e cs)"

definition is_file :: "fs_node \<Rightarrow> path \<Rightarrow> bool" where
  "is_file root_dir item =
     (case lookup root_dir item of Some (RegularFile n sz mt) \<Rightarrow> True | _ \<Rightarrow> False)"

fun glob_rec :: "fs_node \<Rightarrow> path list" where
  \<comment> \<open>\<^verbatim>\<open>glob("**/*")\<close>: the entries of the directory, then each entry's own descendants.\<close>
  "glob_rec (Directory n es) =
     map (\<lambda>e. [node_name e]) es @ concat (map (\<lambda>e. map ((#) (node_name e)) (glob_rec e)) es)"
| "glob_rec other = []"

definition glob_star :: "fs_node \<Rightarrow> path list" where
  \<comment> \<open>\<^verbatim>\<open>glob("*")\<close>: the entries of the directory.\<close>
  "glob_star root_dir = map (\<lambda>e. [node_name e]) (entries root_dir)"

record ScanOptions =
  recursive :: bool
  verbose :: bool
  max_depth :: "int option"
  include_hidden :: bool

definition ScanOptions_default :: ScanOptions where
  "ScanOptions_default =
     \<lparr>recursive = True, verbose = False, max_depth = None, include_hidden = False\<rparr>"

record scan_env =
  \<comment> \<open>What the walk takes from outside: the resolved root, the random identifiers and
      the clock.\<close>
  env_root :: string
  env_uuid4 :: "path \<Rightarrow> string"
  env_now :: datetime

definition resolved_str :: "scan_env \<Rightarrow> path \<Rightarrow> string" where
  "resolved_str env item = env_root env @ concat (map (\<lambda>c. ''/'' @ c) item)"

definition FileRecord_create ::
  "scan_env \<Rightarrow> path \<Rightarrow> int \<Rightarrow> datetime \<Rightarrow> FileCategory \<Rightarrow> FileRecord" where
  "FileRecord_create env item sz mt cat =
     \<lparr>fid = env_uuid4 env item, path = resolved_str env item, filename = Path_name item,
      category = cat, fsize = sz, modified_date = mt, scanned_date = env_now env,
      exists = True\<rparr>"

definition get_file_metadata :: "scan_env \<Rightarrow> fs_node \<Rightarrow> path \<Rightarrow> FileRecord option" where
  "get_file_metadata env root_dir item =
     (case lookup root_dir item of
        Some (RegularFile n sz mt) \<Rightarrow>
          (case categorize_file item of
             None \<Rightarrow> None
           | Some cat \<Rightarrow> Some (FileRecord_create env item sz mt cat))
      | _ \<Rightarrow> None)"

definition depth_of :: "path \<Rightarrow> int" where
  \<comment> \<open>\<^verbatim>\<open>len(relative_path.parts) - 1\<close>\<close>
  "depth_of item = int (length item) - 1"

definition scan_item :: "scan_env \<Rightarrow> fs_node \<Rightarrow> ScanOptions \<Rightarrow> path \<Rightarrow> FileRecord option" where
  \<comment> \<open>The body of the \<^verbatim>\<open>for item in items\<close> loop: the record it yields, if any.\<close>
  "scan_item env root_dir options item =
     (if \<not> is_file root_dir item then None
      else if \<not> include_hidden options \<and> startswith (Path_name item) ''.'' then None
      else if (case max_depth options of None \<Rightarrow> False | Some d \<Rightarrow> d < depth_of item)
      then None
      else get_file_metadata env root_dir item)"

definition scan_items :: "fs_node \<Rightarrow> ScanOptions \<Rightarrow> path list" where
  "scan_items root_dir options =
     (if recursive options then glob_rec root_dir else glob_star root_dir)"

text \<open>
  \<^verbatim>\<open>scan_files\<close>. The cancellation flag is read before each item; \<open>cancelled_at\<close> is the
  number of items gone through when it is first seen set, \<open>None\<close> when it never is.
\<close>

definition scan_files ::
  "scan_env \<Rightarrow> nat option \<Rightarrow> fs_node \<Rightarrow> ScanOptions \<Rightarrow> FileRecord list" where
  "scan_files env cancelled_at root_dir options =
     (let items = scan_items root_dir options
      in List.map_filter (scan_item env root_dir options)
           (case cancelled_at of None \<Rightarrow> items | Some k \<Rightarrow> take k items))"

definition run_scan_collect :: "scan_env \<Rightarrow> fs_node \<Rightarrow> ScanOptions \<Rightarrow> FileRecord list" where
  \<comment> \<open>The two passes of \<^verbatim>\<open>run_scan\<close> in api.py when the scan is not stopped: the regular
      files of the glob, without the dot-named ones unless hidden files are included, then
      \<^verbatim>\<open>get_file_metadata\<close> on each.\<close>
  "run_scan_collect env root_dir options =
     (let all_files = filter (is_file root_dir) (scan_items root_dir options);
          all_files = (if \<not> include_hidden options
                       then filter (\<lambda>f. \<not> startswith (Path_name f) ''.'') all_files
                       else all_files)
      in List.map_filter (get_file_metadata env root_dir) all_files)"

definition regular_files :: "fs_node \<Rightarrow> path list" where
  \<comment> \<open>Every regular file anywhere under the root.\<close>
  "regular_files root_dir = filter (is_file root_dir) (glob_rec root_dir)"

definition files_within_depth :: "scan_env \<Rightarrow> fs_node \<Rightarrow> int \<Rightarrow> FileRecord list" where
  \<comment> \<open>The records of the categorizable regular files whose depth is at most \<open>d\<close>.\<close>
  "files_within_depth env root_dir d =
     List.map_filter (get_file_metadata env root_dir)
       (filter (\<lambda>item. depth_of item \<le> d) (regular_files root_dir))"

definition passes_name_filter :: "ScanOptions \<Rightarrow> path \<Rightarrow> bool" where
  "passes_name_filter options item \<longleftrightarrow>
     include_hidden options \<or> \<not> startswith (Path_name item) ''.''"

subsection \<open>Example inputs\<close>

definition boom :: "nat \<Rightarrow> (exn + unit) \<times> nat" where
  \<comment> \<open>A wrapped function that counts its runs in the world and raises.\<close>
  "boom w = (Inl (Exn OtherException ''boom''), Suc w)"

definition fine :: "nat \<Rightarrow> (exn + unit) \<times> nat" where
  \<comment> \<open>A wrapped function that counts its runs in the world and returns.\<close>
  "fine w = (Inr (), Suc w)"

definition tripped :: CircuitBreaker where
  \<comment> \<open>A breaker of threshold 2 that opened at time 3.\<close>
  "tripped = \<lparr>failure_threshold = 2, recovery_timeout = 30, failure_count = 2,
      last_failure_time = Some 3, state = Open\<rparr>"

definition row_a :: row where
  "row_a = \<lparr>c_id = ''a'', c_path = ''/d/a.png'', c_filename = ''a.png'', c_category = GRAPHICS,
             c_size = 100, c_modified_date = 5, c_scanned_date = 9, c_file_exists = True\<rparr>"

definition row_b :: row where
  "row_b = \<lparr>c_id = ''b'', c_path = ''/d/b.png'', c_filename = ''b.png'', c_category = GRAPHICS,
             c_size = 200, c_modified_date = 5, c_scanned_date = 9, c_file_exists = True\<rparr>"

definition row_c :: row where
  "row_c = \<lparr>c_id = ''c'', c_path = ''/d/c.svg'', c_filename = ''c.svg'', c_category = VECTOR,
             c_size = 10, c_modified_date = 7, c_scanned_date = 9, c_file_exists = True\<rparr>"

definition no_criteria :: SearchCriteria where
  \<comment> \<open>\<^verbatim>\<open>SearchCriteria()\<close>\<close>
  "no_criteria = \<lparr>query = None, crit_category = None, min_size = None, max_size = None,
                   modified_after = None, modified_before = None, limit = None, offset = 0\<rparr>"

definition store_ab :: store where
  "store_ab = \<lparr>table = [row_a, row_b], queries_run = 0\<rparr>"

definition store_abc :: store where
  "store_abc = \<lparr>table = [row_a, row_b, row_c], queries_run = 0\<rparr>"

definition bad_sizes :: search_args where
  \<comment> \<open>\<^verbatim>\<open>GET /files?min_size=10&max_size=5\<close>\<close>
  "bad_sizes = \<lparr>arg_query = [], arg_category = [], arg_min_size = Some 10,
                 arg_max_size = Some 5, arg_limit = None, arg_offset = None\<rparr>"



definition env_ex :: scan_env where
  "env_ex = \<lparr>env_root = ''/r'', env_uuid4 = concat, env_now = 7000000\<rparr>"

definition tree_hidden :: fs_node where
  \<comment> \<open>A root directory that holds the one file \<^verbatim>\<open>.hidden.png\<close>.\<close>
  "tree_hidden = Directory ''r'' [RegularFile ''.hidden.png'' 10 5000000]"

definition tree_cache :: fs_node where
  \<comment> \<open>A root directory with \<^verbatim>\<open>a.jpg\<close> and a hidden directory \<^verbatim>\<open>.cache\<close> that holds
      \<^verbatim>\<open>b.svg\<close>.\<close>
  "tree_cache =
     Directory ''r'' [RegularFile ''a.jpg'' 1 2000000,
                      Directory ''.cache'' [RegularFile ''b.svg'' 3 4000000]]"

definition all_gone :: exists_probe where
  \<comment> \<open>A file system on which no stored path exists any more.\<close>
  "all_gone p = Inr False"

definition probe_ex :: exists_probe where
  \<comment> \<open>\<^verbatim>\<open>/d/a.png\<close> is gone, \<^verbatim>\<open>/d/b.png\<close> is there, probing anything else raises.\<close>
  "probe_ex p =
     (if p = ''/d/a.png'' then Inr False
      else if p = ''/d/b.png'' then Inr True
      else Inl ''[Errno 13] Permission denied'')"

section \<open>The classifier\<close>












lemma extension_table_keys_distinct: "distinct (map fst extension_table)"
  by (simp add: extension_table_def)





section \<open>The circuit breaker\<close>

lemma call_failure_step:
  assumes "breaker_q cb (Suc n)"
    and "CircuitBreaker_call cb t0 t1 func w = (Inl e, cb', w')"
  shows "breaker_q cb' n"
  using assms
  by (auto simp: breaker_q_def CircuitBreaker_call_def on_failure_def on_success_def Let_def
      split: if_splits prod.splits sum.splits)

lemma call_seq_failures:
  assumes "breaker_q cb (length calls)"
    and "\<forall>r \<in> set (fst (call_seq cb calls w)). isl r"
  shows "breaker_q (fst (snd (call_seq cb calls w))) 0"
  using assms
proof (induction calls arbitrary: cb w)
  case Nil
  then show ?case by simp
next
  case (Cons c calls)
  obtain t0 t1 func where c: "c = (t0, t1, func)" by (cases c) auto
  obtain r cb' w' where st: "CircuitBreaker_call cb t0 t1 func w = (r, cb', w')"
    by (cases "CircuitBreaker_call cb t0 t1 func w") auto
  obtain rs cb'' w'' where rest: "call_seq cb' calls w' = (rs, cb'', w'')"
    by (cases "call_seq cb' calls w'") auto
  from Cons.prems(2) c st rest have "isl r" and all: "\<forall>r \<in> set rs. isl r" by auto
  then obtain e where r: "r = Inl e" by (cases r) auto
  from Cons.prems(1) have "breaker_q cb (Suc (length calls))" by simp
  from call_failure_step [OF this st [unfolded r]] have q: "breaker_q cb' (length calls)" .
  from Cons.IH [OF q, of w'] all rest have "breaker_q cb'' 0" by simp
  with c st rest show ?case by simp
qed

lemma breaker_opens_after_threshold:
  assumes "state cb = Closed" and "failure_count cb = 0" and "1 \<le> failure_threshold cb"
    and "length calls = nat (failure_threshold cb)"
    and "\<forall>r \<in> set (fst (call_seq cb calls w)). isl r"
  shows "state (fst (snd (call_seq cb calls w))) = Open"
proof -
  from assms(1-4) have "breaker_q cb (length calls)" by (simp add: breaker_q_def)
  from call_seq_failures [OF this assms(5)] show ?thesis by (auto simp: breaker_q_def)
qed

lemma breaker_rejects_while_open:
  assumes "state cb = Open" and "last_failure_time cb = Some t"
    and "t_check - t < recovery_timeout cb"
  shows "CircuitBreaker_call cb t_check t_fail func w = (Inl breaker_open_error, cb, w)"
  using assms by (simp add: CircuitBreaker_call_def should_attempt_reset_def)

lemma breaker_trial_call:
  assumes "state cb = Open" and "failure_threshold cb \<le> failure_count cb"
    and "last_failure_time cb = Some t" and "recovery_timeout cb \<le> t_check - t"
  shows "case func w of
           (Inr v, w') \<Rightarrow>
             CircuitBreaker_call cb t_check t_fail func w
               = (Inr v, cb\<lparr>failure_count := 0, state := Closed\<rparr>, w')
         | (Inl e, w') \<Rightarrow>
             CircuitBreaker_call cb t_check t_fail func w
               = (Inl e, cb\<lparr>failure_count := failure_count cb + 1,
                            last_failure_time := Some t_fail, state := Open\<rparr>, w')
             \<and> (t2 - t_fail < recovery_timeout cb \<longrightarrow>
                   CircuitBreaker_call
                     (cb\<lparr>failure_count := failure_count cb + 1,
                         last_failure_time := Some t_fail, state := Open\<rparr>) t2 t3 g w'
                   = (Inl breaker_open_error,
                      cb\<lparr>failure_count := failure_count cb + 1,
                         last_failure_time := Some t_fail, state := Open\<rparr>, w'))"
  using assms
  by (auto simp: CircuitBreaker_call_def should_attempt_reset_def on_success_def on_failure_def
      Let_def split: prod.splits sum.splits)

lemma breaker_success_closes:
  assumes "fst (CircuitBreaker_call cb t_check t_fail func w) = Inr v"
  shows "state (fst (snd (CircuitBreaker_call cb t_check t_fail func w))) = Closed
         \<and> failure_count (fst (snd (CircuitBreaker_call cb t_check t_fail func w))) = 0"
  using assms
  by (auto simp: CircuitBreaker_call_def on_success_def on_failure_def breaker_open_error_def
      Let_def split: prod.splits sum.splits if_splits)

lemma breaker_ok_init: "breaker_ok (CircuitBreaker_init threshold timeout)"
  by (simp add: breaker_ok_def CircuitBreaker_init_def)

lemma breaker_ok_call:
  assumes "breaker_ok cb"
  shows "breaker_ok (fst (snd (CircuitBreaker_call cb t_check t_fail func w)))"
  using assms
  by (auto simp: breaker_ok_def CircuitBreaker_call_def on_success_def on_failure_def Let_def
      split: prod.splits sum.splits)

lemma breaker_ok_call_seq:
  assumes "breaker_ok cb"
  shows "breaker_ok (fst (snd (call_seq cb calls w)))"
  using assms
proof (induction calls arbitrary: cb w)
  case Nil
  then show ?case by simp
next
  case (Cons c calls)
  obtain t0 t1 func where c: "c = (t0, t1, func)" by (cases c) auto
  obtain r cb' w' where st: "CircuitBreaker_call cb t0 t1 func w = (r, cb', w')"
    by (cases "CircuitBreaker_call cb t0 t1 func w") auto
  from breaker_ok_call [OF Cons.prems, of t0 t1 func w] st have "breaker_ok cb'" by simp
  from Cons.IH [OF this, of w'] c st show ?case by (auto split: prod.splits)
qed

text \<open>
  Claim C8. The breaker is a state machine over closed, open and half-open.
  \<^item> From a closed breaker with no failure counted, as many calls in a row as the
    threshold, all of them raising, leave the breaker open.
  \<^item> While it is open and the cooldown has not elapsed since the last failure, a call
    raises at once and the world is what it was: the wrapped function has not run.
  \<^item> Once the cooldown has elapsed, the next call runs the wrapped function once; if it
    returns, the breaker is closed again; if it raises, the breaker is open again with the
    cooldown counted from this failure, so the call after it is refused again.
  \<^item> Whenever a call returns a value, the breaker is closed and its failure count is 0.

  The third item is about an open breaker whose count has reached the threshold; by
  \<open>breaker_ok_init\<close> and \<open>breaker_ok_call_seq\<close> that is every open breaker a sequence of
  calls leads to from a new one, and no such breaker is left half-open between calls.
\<close>

theorem circuit_breaker_state_machine:
  fixes func :: "'w \<Rightarrow> (exn + 'a) \<times> 'w"
    and g :: "'w \<Rightarrow> (exn + 'a) \<times> 'w"
    and calls :: "(real \<times> real \<times> ('w \<Rightarrow> (exn + 'a) \<times> 'w)) list"
  shows
  "(state cb0 = Closed \<and> failure_count cb0 = 0 \<and> 1 \<le> failure_threshold cb0
      \<and> length calls = nat (failure_threshold cb0)
      \<and> (\<forall>r \<in> set (fst (call_seq cb0 calls w0)). isl r)
    \<longrightarrow> state (fst (snd (call_seq cb0 calls w0))) = Open)
   \<and> (state cb = Open \<and> last_failure_time cb = Some t \<and> t_check - t < recovery_timeout cb
    \<longrightarrow> CircuitBreaker_call cb t_check t_fail func w = (Inl breaker_open_error, cb, w))
   \<and> (state cb = Open \<and> failure_threshold cb \<le> failure_count cb
      \<and> last_failure_time cb = Some t \<and> recovery_timeout cb \<le> t_check - t
    \<longrightarrow> (case func w of
           (Inr v, w') \<Rightarrow>
             CircuitBreaker_call cb t_check t_fail func w
               = (Inr v, cb\<lparr>failure_count := 0, state := Closed\<rparr>, w')
         | (Inl e, w') \<Rightarrow>
             CircuitBreaker_call cb t_check t_fail func w
               = (Inl e, cb\<lparr>failure_count := failure_count cb + 1,
                            last_failure_time := Some t_fail, state := Open\<rparr>, w')
             \<and> (t2 - t_fail < recovery_timeout cb \<longrightarrow>
                   CircuitBreaker_call
                     (cb\<lparr>failure_count := failure_count cb + 1,
                         last_failure_time := Some t_fail, state := Open\<rparr>) t2 t3 g w'
                   = (Inl breaker_open_error,
                      cb\<lparr>failure_count := failure_count cb + 1,
                         last_failure_time := Some t_fail, state := Open\<rparr>, w'))))
   \<and> (fst (CircuitBreaker_call cb1 t_check t_fail func w) = Inr v1
    \<longrightarrow> state (fst (snd (CircuitBreaker_call cb1 t_check t_fail func w))) = Closed
        \<and> failure_count (fst (snd (CircuitBreaker_call cb1 t_check t_fail func w))) = 0)"
proof (intro conjI impI)
  assume "state cb0 = Closed \<and> failure_count cb0 = 0 \<and> 1 \<le> failure_threshold cb0
      \<and> length calls = nat (failure_threshold cb0)
      \<and> (\<forall>r \<in> set (fst (call_seq cb0 calls w0)). isl r)"
  then show "state (fst (snd (call_seq cb0 calls w0))) = Open"
    using breaker_opens_after_threshold [where cb = cb0 and calls = calls and w = w0] by simp
next
  assume "state cb = Open \<and> last_failure_time cb = Some t \<and> t_check - t < recovery_timeout cb"
  then show "CircuitBreaker_call cb t_check t_fail func w = (Inl breaker_open_error, cb, w)"
    using breaker_rejects_while_open [where cb = cb and t = t and t_check = t_check
        and t_fail = t_fail and func = func and w = w]
    by simp
next
  assume "state cb = Open \<and> failure_threshold cb \<le> failure_count cb
      \<and> last_failure_time cb = Some t \<and> recovery_timeout cb \<le> t_check - t"
  then have "state cb = Open" and "failure_threshold cb \<le> failure_count cb"
    and "last_failure_time cb = Some t" and "recovery_timeout cb \<le> t_check - t"
    by simp_all
  then show "case func w of
           (Inr v, w') \<Rightarrow>
             CircuitBreaker_call cb t_check t_fail func w
               = (Inr v, cb\<lparr>failure_count := 0, state := Closed\<rparr>, w')
         | (Inl e, w') \<Rightarrow>
             CircuitBreaker_call cb t_check t_fail func w
               = (Inl e, cb\<lparr>failure_count := failure_count cb + 1,
                            last_failure_time := Some t_fail, state := Open\<rparr>, w')
             \<and> (t2 - t_fail < recovery_timeout cb \<longrightarrow>
                   CircuitBreaker_call
                     (cb\<lparr>failure_count := failure_count cb + 1,
                         last_failure_time := Some t_fail, state := Open\<rparr>) t2 t3 g w'
                   = (Inl breaker_open_error,
                      cb\<lparr>failure_count := failure_count cb + 1,
                         last_failure_time := Some t_fail, state := Open\<rparr>, w'))"
    by (rule breaker_trial_call)
next
  assume "fst (CircuitBreaker_call cb1 t_check t_fail func w) = Inr v1"
  then show "state (fst (snd (CircuitBreaker_call cb1 t_check t_fail func w))) = Closed"
    and "failure_count (fst (snd (CircuitBreaker_call cb1 t_check t_fail func w))) = 0"
    using breaker_success_closes [where cb = cb1 and t_check = t_check and t_fail = t_fail
        and func = func and w = w and v = v1]
    by simp_all
qed

theorem circuit_breaker_state_machine_witness:
  "state (fst (snd (call_seq (CircuitBreaker_init 2 30) [(0, 1, boom), (2, 3, boom)] 0))) = Open
   \<and> CircuitBreaker_call tripped 10 11 fine 0 = (Inl breaker_open_error, tripped, 0)
   \<and> CircuitBreaker_call tripped 40 41 fine 0
       = (Inr (), tripped\<lparr>failure_count := 0, state := Closed\<rparr>, 1)
   \<and> CircuitBreaker_call tripped 40 41 boom 0
       = (Inl (Exn OtherException ''boom''),
          tripped\<lparr>failure_count := failure_count tripped + 1,
                  last_failure_time := Some 41, state := Open\<rparr>, 1)
   \<and> CircuitBreaker_call
        (tripped\<lparr>failure_count := failure_count tripped + 1,
                 last_failure_time := Some 41, state := Open\<rparr>) 50 51 fine 1
       = (Inl breaker_open_error,
          tripped\<lparr>failure_count := failure_count tripped + 1,
                  last_failure_time := Some 41, state := Open\<rparr>, 1)
   \<and> state (fst (snd (CircuitBreaker_call (CircuitBreaker_init 2 30) 0 1 fine 0))) = Closed"
proof -
  let ?init = "CircuitBreaker_init 2 30"
  let ?calls = "[(0::real, 1::real, boom), (2, 3, boom)]"
  have h1: "state ?init = Closed \<and> failure_count ?init = 0 \<and> 1 \<le> failure_threshold ?init
     \<and> length ?calls = nat (failure_threshold ?init)
     \<and> (\<forall>r \<in> set (fst (call_seq ?init ?calls 0)). isl r)"
    by (simp add: CircuitBreaker_init_def CircuitBreaker_call_def boom_def on_failure_def
        should_attempt_reset_def)
  have h2: "state tripped = Open \<and> last_failure_time tripped = Some 3
     \<and> (10::real) - 3 < recovery_timeout tripped"
    by (simp add: tripped_def)
  have h3: "state tripped = Open \<and> failure_threshold tripped \<le> failure_count tripped
     \<and> last_failure_time tripped = Some 3 \<and> recovery_timeout tripped \<le> (40::real) - 3"
    by (simp add: tripped_def)
  have h4: "fst (CircuitBreaker_call ?init 0 1 fine 0) = Inr ()"
    by (simp add: CircuitBreaker_init_def CircuitBreaker_call_def fine_def on_success_def)
  have h5: "(50::real) - 41 < recovery_timeout tripped" by (simp add: tripped_def)
  have c1: "state (fst (snd (call_seq ?init ?calls 0))) = Open"
    using h1 circuit_breaker_state_machine [where ?cb0.0 = ?init and calls = ?calls and ?w0.0 = 0]
    by simp
  have c2: "CircuitBreaker_call tripped 10 11 fine 0 = (Inl breaker_open_error, tripped, 0)"
    using h2 circuit_breaker_state_machine
      [where cb = tripped and t = 3 and t_check = 10 and t_fail = 11 and func = fine and w = 0]
    by simp
  have c3: "case fine 0 of
           (Inr v, w') \<Rightarrow>
             CircuitBreaker_call tripped 40 41 fine 0
               = (Inr v, tripped\<lparr>failure_count := 0, state := Closed\<rparr>, w')
         | (Inl e, w') \<Rightarrow> True"
    using h3 circuit_breaker_state_machine
      [where cb = tripped and t = 3 and t_check = 40 and t_fail = 41 and func = fine and w = 0]
    by (auto split: prod.splits sum.splits)
  have c4: "case boom 0 of
           (Inr v, w') \<Rightarrow> True
         | (Inl e, w') \<Rightarrow>
             CircuitBreaker_call tripped 40 41 boom 0
               = (Inl e, tripped\<lparr>failure_count := failure_count tripped + 1,
                            last_failure_time := Some 41, state := Open\<rparr>, w')
             \<and> CircuitBreaker_call
                     (tripped\<lparr>failure_count := failure_count tripped + 1,
                         last_failure_time := Some 41, state := Open\<rparr>) 50 51 fine w'
                   = (Inl breaker_open_error,
                      tripped\<lparr>failure_count := failure_count tripped + 1,
                         last_failure_time := Some 41, state := Open\<rparr>, w')"
    using h3 h5 circuit_breaker_state_machine
      [where cb = tripped and t = 3 and t_check = 40 and t_fail = 41 and func = boom and w = 0
         and ?t2.0 = 50 and ?t3.0 = 51 and g = fine]
    by (auto split: prod.splits sum.splits)
  have c5: "state (fst (snd (CircuitBreaker_call ?init 0 1 fine 0))) = Closed"
    using h4 circuit_breaker_state_machine
      [where ?cb1.0 = ?init and t_check = 0 and t_fail = 1 and func = fine and w = 0
         and ?v1.0 = "()"]
    by simp
  from c1 c2 c3 c4 c5 show ?thesis by (simp add: fine_def boom_def)
qed

section \<open>Search\<close>

lemma sorted_wrt_paginate:
  "sorted_wrt R xs \<Longrightarrow> sorted_wrt R (paginate criteria xs)"
  by (auto simp: paginate_def sql_limit_offset_def Let_def split: option.splits)

lemma most_recent_first_rows:
  "sorted_wrt (\<lambda>a b. c_modified_date b \<le> c_modified_date a) xs
   \<Longrightarrow> most_recent_first (map row_to_file_record xs)"
  by (simp add: most_recent_first_def sorted_wrt_map row_to_file_record_def fromtimestamp_def)

lemma where_clause_offset: "where_clause (criteria\<lparr>offset := k\<rparr>) = where_clause criteria"
  by (rule ext) (simp add: where_clause_def)

text \<open>
  Claim C7, as amended. Every search returns its records most recently modified first.
  (The query has no second sort key: the order of records with equal modified times is
  the engine's, not the order of insertion.)
\<close>

theorem search_files_most_recent_first:
  assumes "engine_answers engine_order criteria st"
    and "fst (search_files engine_order criteria st) = Inr results"
  shows "most_recent_first results"
proof -
  from assms(1)
  have "sorted_wrt (\<lambda>a b. c_modified_date b \<le> c_modified_date a)
          (engine_order (filter (where_clause criteria) (table st)))"
    by (simp add: engine_answers_def order_by_modified_date_desc_def)
  then have "most_recent_first
      (map row_to_file_record
         (paginate criteria (engine_order (filter (where_clause criteria) (table st)))))"
    by (intro most_recent_first_rows sorted_wrt_paginate)
  with assms(2) show ?thesis by (simp add: search_files_def)
qed

lemma engine_answers_newest_ab: "engine_answers newest_rowid_first no_criteria store_ab"
  by (simp add: engine_answers_def order_by_modified_date_desc_def newest_rowid_first_def
      store_ab_def no_criteria_def where_clause_def row_a_def row_b_def)

lemma search_newest_ab:
  "fst (search_files newest_rowid_first no_criteria store_ab)
     = Inr [row_to_file_record row_b, row_to_file_record row_a]"
  by (simp add: search_files_def newest_rowid_first_def paginate_def
      store_ab_def no_criteria_def where_clause_def row_a_def row_b_def)

theorem search_files_most_recent_first_witness:
  "engine_answers newest_rowid_first no_criteria store_ab
   \<and> fst (search_files newest_rowid_first no_criteria store_ab)
       = Inr [row_to_file_record row_b, row_to_file_record row_a]
   \<and> most_recent_first [row_to_file_record row_b, row_to_file_record row_a]"
  using engine_answers_newest_ab search_newest_ab
    search_files_most_recent_first [OF engine_answers_newest_ab search_newest_ab]
  by simp

theorem search_files_tie_order_counterexample:
  "table_ok (table store_ab)
   \<and> engine_answers newest_rowid_first no_criteria store_ab
   \<and> fst (search_files newest_rowid_first no_criteria store_ab)
       = Inr [row_to_file_record row_b, row_to_file_record row_a]
   \<and> modified_date (row_to_file_record row_b) = modified_date (row_to_file_record row_a)
   \<and> \<not> ties_in_insertion_order (table store_ab)
         [row_to_file_record row_b, row_to_file_record row_a]"
proof -
  have "table_ok (table store_ab)"
    by (simp add: table_ok_def store_ab_def row_a_def row_b_def)
  moreover have "modified_date (row_to_file_record row_b) = modified_date (row_to_file_record row_a)"
    by (simp add: row_to_file_record_def row_a_def row_b_def)
  moreover have "\<not> ties_in_insertion_order (table store_ab)
         [row_to_file_record row_b, row_to_file_record row_a]"
    by (simp add: ties_in_insertion_order_def store_ab_def row_to_file_record_def
        row_a_def row_b_def)
  ultimately show ?thesis using engine_answers_newest_ab search_newest_ab by simp
qed

text \<open>
  Claim C10. The offset is applied only together with a limit. With no limit (and with
  the limit 0, which is as falsy as none) the offset changes nothing and the search
  returns every matching record, each once. With a limit of at least 1 and the offset 0
  it returns the first page, and with a positive offset the page after skipping that many.
\<close>

theorem search_files_offset_only_with_limit:
  "(limit criteria = None \<or> limit criteria = Some 0 \<longrightarrow>
      fst (search_files engine_order (criteria\<lparr>offset := k\<rparr>) st)
        = fst (search_files engine_order criteria st)
      \<and> fst (search_files engine_order criteria st)
        = Inr (map row_to_file_record
                 (engine_order (filter (where_clause criteria) (table st))))
      \<and> (engine_answers engine_order criteria st \<longrightarrow>
           mset (map row_to_file_record
                   (engine_order (filter (where_clause criteria) (table st))))
             = image_mset row_to_file_record
                 (mset (filter (where_clause criteria) (table st)))))
   \<and> (limit criteria = Some n \<and> 1 \<le> n \<and> offset criteria = 0 \<longrightarrow>
      fst (search_files engine_order criteria st)
        = Inr (map row_to_file_record
                 (take (nat n) (engine_order (filter (where_clause criteria) (table st))))))
   \<and> (limit criteria = Some n \<and> 1 \<le> n \<and> 0 < offset criteria \<longrightarrow>
      fst (search_files engine_order criteria st)
        = Inr (map row_to_file_record
                 (take (nat n) (drop (nat (offset criteria))
                    (engine_order (filter (where_clause criteria) (table st)))))))"
proof (intro conjI impI)
  assume l: "limit criteria = None \<or> limit criteria = Some 0"
  then show "fst (search_files engine_order (criteria\<lparr>offset := k\<rparr>) st)
        = fst (search_files engine_order criteria st)"
    by (auto simp: search_files_def paginate_def where_clause_offset)
  from l show "fst (search_files engine_order criteria st)
        = Inr (map row_to_file_record
                 (engine_order (filter (where_clause criteria) (table st))))"
    by (auto simp: search_files_def paginate_def)
  assume "engine_answers engine_order criteria st"
  then have "mset (engine_order (filter (where_clause criteria) (table st)))
      = mset (filter (where_clause criteria) (table st))"
    by (simp add: engine_answers_def order_by_modified_date_desc_def)
  then show "mset (map row_to_file_record
                   (engine_order (filter (where_clause criteria) (table st))))
             = image_mset row_to_file_record
                 (mset (filter (where_clause criteria) (table st)))"
    by (metis mset_map)
next
  assume "limit criteria = Some n \<and> 1 \<le> n \<and> offset criteria = 0"
  then show "fst (search_files engine_order criteria st)
        = Inr (map row_to_file_record
                 (take (nat n) (engine_order (filter (where_clause criteria) (table st)))))"
    by (auto simp: search_files_def paginate_def sql_limit_offset_def)
next
  assume "limit criteria = Some n \<and> 1 \<le> n \<and> 0 < offset criteria"
  then show "fst (search_files engine_order criteria st)
        = Inr (map row_to_file_record
                 (take (nat n) (drop (nat (offset criteria))
                    (engine_order (filter (where_clause criteria) (table st))))))"
    by (auto simp: search_files_def paginate_def sql_limit_offset_def Let_def)
qed

theorem search_files_offset_only_with_limit_witness:
  "fst (search_files oldest_rowid_first (no_criteria\<lparr>offset := 2\<rparr>) store_abc)
     = Inr [row_to_file_record row_c, row_to_file_record row_a, row_to_file_record row_b]
   \<and> fst (search_files oldest_rowid_first (no_criteria\<lparr>limit := Some 2\<rparr>) store_abc)
     = Inr [row_to_file_record row_c, row_to_file_record row_a]
   \<and> fst (search_files oldest_rowid_first (no_criteria\<lparr>limit := Some 2, offset := 2\<rparr>) store_abc)
     = Inr [row_to_file_record row_b]"
proof -
  have all: "filter (where_clause c) (table store_abc) = [row_a, row_b, row_c]"
    if "query c = None" "crit_category c = None" "min_size c = None" "max_size c = None"
       "modified_after c = None" "modified_before c = None" for c
    using that by (simp add: where_clause_def store_abc_def)
  have ord: "oldest_rowid_first [row_a, row_b, row_c] = [row_c, row_a, row_b]"
    by (simp add: oldest_rowid_first_def row_a_def row_b_def row_c_def)
  have h1: "limit no_criteria = None" by (simp add: no_criteria_def)
  have h2: "limit (no_criteria\<lparr>limit := Some 2\<rparr>) = Some 2 \<and> (1::int) \<le> 2
     \<and> offset (no_criteria\<lparr>limit := Some 2\<rparr>) = 0"
    by (simp add: no_criteria_def)
  have h3: "limit (no_criteria\<lparr>limit := Some 2, offset := 2\<rparr>) = Some 2 \<and> (1::int) \<le> 2
     \<and> 0 < offset (no_criteria\<lparr>limit := Some 2, offset := 2\<rparr>)"
    by (simp add: no_criteria_def)
  have c1: "fst (search_files oldest_rowid_first (no_criteria\<lparr>offset := 2\<rparr>) store_abc)
     = Inr [row_to_file_record row_c, row_to_file_record row_a, row_to_file_record row_b]"
    using h1 search_files_offset_only_with_limit
      [where criteria = no_criteria and engine_order = oldest_rowid_first and st = store_abc
         and k = 2]
    by (simp add: all ord no_criteria_def)
  have c2: "fst (search_files oldest_rowid_first (no_criteria\<lparr>limit := Some 2\<rparr>) store_abc)
     = Inr [row_to_file_record row_c, row_to_file_record row_a]"
    using h2 search_files_offset_only_with_limit
      [where criteria = "no_criteria\<lparr>limit := Some 2\<rparr>" and engine_order = oldest_rowid_first
         and st = store_abc and n = 2]
    by (simp add: all ord no_criteria_def)
  have c3: "fst (search_files oldest_rowid_first (no_criteria\<lparr>limit := Some 2, offset := 2\<rparr>)
               store_abc)
     = Inr [row_to_file_record row_b]"
    using h3 search_files_offset_only_with_limit
      [where criteria = "no_criteria\<lparr>limit := Some 2, offset := 2\<rparr>"
         and engine_order = oldest_rowid_first and st = store_abc and n = 2]
    by (simp add: all ord no_criteria_def)
  from c1 c2 c3 show ?thesis by simp
qed

section \<open>Validation of the size bounds\<close>

lemma isinstance_ValidationError: "isinstance (Exn ValidationError msg) ValidationError"
  by (simp add: issubclass_def)

lemma get_files_validate_sizes:
  assumes "arg_min_size args = Some a" and "arg_max_size args = Some b" and "b < a"
  shows "\<exists>msg. get_files_validate args = Inl (Exn ValidationError msg)"
  using assms by (simp add: get_files_validate_def Let_def)

lemma where_clause_empty_range:
  assumes "min_size criteria = Some a" and "max_size criteria = Some b" and "b < a"
  shows "filter (where_clause criteria) t = []"
  using assms by (auto simp: where_clause_def filter_empty_conv)

text \<open>
  Claim C5, as amended. A request to the HTTP search handler that gives both size bounds
  with the minimum above the maximum is answered with a validation error, status 400,
  whatever the store operation is, and the store is what it was: nothing ran on it and no
  records come back. \<^verbatim>\<open>DatabaseManager.search_files\<close>, which the command line calls
  directly, validates nothing: on such criteria it runs its query, which selects no row.
\<close>

theorem get_files_rejects_min_above_max:
  "(arg_min_size args = Some a \<and> arg_max_size args = Some b \<and> b < a \<longrightarrow>
      (\<exists>msg. get_files_validate args = Inl (Exn ValidationError msg)
            \<and> get_files store_search args w = ((ErrorBody ''Validation error'' msg, 400), w)))
   \<and> (min_size criteria = Some a \<and> max_size criteria = Some b \<and> b < a
        \<and> engine_answers engine_order criteria st \<longrightarrow>
      search_files engine_order criteria st = (Inr [], st\<lparr>queries_run := Suc (queries_run st)\<rparr>))"
proof (intro conjI impI)
  assume "arg_min_size args = Some a \<and> arg_max_size args = Some b \<and> b < a"
  then obtain msg where "get_files_validate args = Inl (Exn ValidationError msg)"
    using get_files_validate_sizes by blast
  then have "get_files_validate args = Inl (Exn ValidationError msg)
      \<and> get_files store_search args w = ((ErrorBody ''Validation error'' msg, 400), w)"
    by (simp add: get_files_def handle_api_error_def issubclass_def)
  then show "\<exists>msg. get_files_validate args = Inl (Exn ValidationError msg)
            \<and> get_files store_search args w = ((ErrorBody ''Validation error'' msg, 400), w)"
    by blast
next
  assume a: "min_size criteria = Some a \<and> max_size criteria = Some b \<and> b < a
        \<and> engine_answers engine_order criteria st"
  then have e: "filter (where_clause criteria) (table st) = []"
    using where_clause_empty_range by blast
  with a have "engine_order [] = []"
    by (simp add: engine_answers_def order_by_modified_date_desc_def)
  with e show "search_files engine_order criteria st
      = (Inr [], st\<lparr>queries_run := Suc (queries_run st)\<rparr>)"
    by (simp add: search_files_def paginate_def sql_limit_offset_def split: option.splits)
qed

theorem get_files_rejects_min_above_max_witness:
  "get_files (search_files newest_rowid_first) bad_sizes store_ab
     = ((ErrorBody ''Validation error'' ''Minimum size cannot be greater than maximum size'',
         400), store_ab)
   \<and> search_files newest_rowid_first (no_criteria\<lparr>min_size := Some 10, max_size := Some 5\<rparr>)
       store_ab
     = (Inr [], store_ab\<lparr>queries_run := Suc (queries_run store_ab)\<rparr>)"
proof -
  have h1: "arg_min_size bad_sizes = Some 10 \<and> arg_max_size bad_sizes = Some 5 \<and> (5::int) < 10"
    by (simp add: bad_sizes_def)
  have v: "get_files_validate bad_sizes
      = Inl (Exn ValidationError ''Minimum size cannot be greater than maximum size'')"
    by (simp add: get_files_validate_def bad_sizes_def strip_def)
  let ?c = "no_criteria\<lparr>min_size := Some 10, max_size := Some 5\<rparr>"
  have h2: "min_size ?c = Some 10 \<and> max_size ?c = Some 5 \<and> (5::int) < 10
      \<and> engine_answers newest_rowid_first ?c store_ab"
    by (simp add: engine_answers_def order_by_modified_date_desc_def newest_rowid_first_def
        store_ab_def no_criteria_def where_clause_def row_a_def row_b_def)
  from h1 h2 v get_files_rejects_min_above_max
      [where args = bad_sizes and a = 10 and b = 5 and criteria = ?c
         and store_search = "search_files newest_rowid_first" and w = store_ab
         and engine_order = newest_rowid_first and st = store_ab]
  show ?thesis by auto
qed

theorem search_files_no_validation_counterexample:
  "min_size (no_criteria\<lparr>min_size := Some 10, max_size := Some 5\<rparr>) = Some 10
   \<and> max_size (no_criteria\<lparr>min_size := Some 10, max_size := Some 5\<rparr>) = Some 5
   \<and> search_files newest_rowid_first (no_criteria\<lparr>min_size := Some 10, max_size := Some 5\<rparr>)
       store_ab
     = (Inr [], \<lparr>table = [row_a, row_b], queries_run = 1\<rparr>)"
  by (simp add: search_files_def paginate_def newest_rowid_first_def store_ab_def
      no_criteria_def where_clause_def row_a_def row_b_def)

section \<open>Batch upsert\<close>

















section \<open>The directory walk\<close>

lemma set_map_filter: "set (List.map_filter f xs) = {y. \<exists>x \<in> set xs. f x = Some y}"
  by (induction xs) (auto split: option.splits)

lemma map_filter_cond:
  "List.map_filter (\<lambda>x. if P x then f x else None) xs = List.map_filter f (filter P xs)"
  by (induction xs) (auto split: option.splits)

lemma get_file_metadata_is_file:
  "get_file_metadata env root_dir item = Some r \<Longrightarrow> is_file root_dir item"
  by (auto simp: get_file_metadata_def is_file_def split: option.splits fs_node.splits)

lemma scan_item_cond:
  "scan_item env root_dir options item =
     (if is_file root_dir item \<and> passes_name_filter options item
         \<and> (case max_depth options of None \<Rightarrow> True | Some d \<Rightarrow> depth_of item \<le> d)
      then get_file_metadata env root_dir item else None)"
  by (auto simp: scan_item_def passes_name_filter_def split: option.splits)

lemma scan_files_not_cancelled:
  "scan_files env None root_dir options =
     List.map_filter (get_file_metadata env root_dir)
       (filter (\<lambda>item. is_file root_dir item \<and> passes_name_filter options item
                  \<and> (case max_depth options of None \<Rightarrow> True | Some d \<Rightarrow> depth_of item \<le> d))
          (scan_items root_dir options))"
  unfolding scan_files_def Let_def option.case scan_item_cond [abs_def]
  by (rule map_filter_cond)

lemma glob_rec_nonempty: "[] \<notin> set (glob_rec node)"
  by (induction node rule: glob_rec.induct) auto

lemma scan_items_nonempty: "[] \<notin> set (scan_items root_dir options)"
  by (auto simp: scan_items_def glob_star_def glob_rec_nonempty)

lemma lookup_single:
  assumes "lookup root_dir [n] = Some (RegularFile n' sz mt)"
  shows "n' = n \<and> RegularFile n sz mt \<in> set (entries root_dir)"
proof -
  from assms obtain e where f: "find (\<lambda>e. node_name e = n) (entries root_dir) = Some e"
    and e: "e = RegularFile n' sz mt"
    by (auto split: option.splits)
  from f have "node_name e = n" and "e \<in> set (entries root_dir)"
    by (auto simp: find_Some_iff)
  with e show ?thesis by auto
qed

lemma lookup_in_glob_rec:
  "p \<noteq> [] \<Longrightarrow> lookup node p = Some found \<Longrightarrow> p \<in> set (glob_rec node)"
proof (induction p arbitrary: node)
  case Nil
  then show ?case by simp
next
  case (Cons c cs)
  from Cons.prems(2) obtain e where f: "find (\<lambda>e. node_name e = c) (entries node) = Some e"
    and l: "lookup e cs = Some found"
    by (auto split: option.splits)
  from f have n: "node_name e = c" and m: "e \<in> set (entries node)"
    by (auto simp: find_Some_iff)
  from m obtain nm es where node: "node = Directory nm es"
    by (cases node) auto
  show ?case
  proof (cases "cs = []")
    case True
    with n m node show ?thesis by force
  next
    case False
    from Cons.IH [OF False l] have "cs \<in> set (glob_rec e)" .
    with n m node show ?thesis by force
  qed
qed

lemma depth_zero_single:
  assumes "item \<noteq> []" and "depth_of item \<le> 0"
  shows "\<exists>n. item = [n]"
  using assms by (cases item) (auto simp: depth_of_def)

lemma scan_files_depth_zero:
  assumes "max_depth options = Some 0" and "r \<in> set (scan_files env None root_dir options)"
  shows "\<exists>sz mt. RegularFile (filename r) sz mt \<in> set (entries root_dir)
            \<and> path r = env_root env @ ''/'' @ filename r"
proof -
  from assms(2) obtain item where i: "item \<in> set (scan_items root_dir options)"
    and d: "depth_of item \<le> 0" and g: "get_file_metadata env root_dir item = Some r"
    unfolding scan_files_not_cancelled set_map_filter using assms(1) by auto
  from i have "item \<noteq> []" using scan_items_nonempty by metis
  with d obtain n where item: "item = [n]" using depth_zero_single by blast
  from g obtain n' sz mt cat where l: "lookup root_dir [n] = Some (RegularFile n' sz mt)"
    and r: "r = FileRecord_create env [n] sz mt cat"
    unfolding item by (auto simp: get_file_metadata_def split: option.splits fs_node.splits)
  from lookup_single [OF l] have "RegularFile n sz mt \<in> set (entries root_dir)" by simp
  moreover from r have "filename r = n" and "path r = env_root env @ ''/'' @ n"
    by (simp_all add: FileRecord_create_def Path_name_def resolved_str_def)
  ultimately show ?thesis by auto
qed

text \<open>
  Claim C6, as amended. With \<^verbatim>\<open>max_depth\<close> set to \<open>d\<close> and no cancellation, the walk
  yields exactly the records of the categorizable regular files among the entries it
  enumerates (every descendant of the root when recursive, the root's own entries
  otherwise) that pass the name filter (all of them when hidden files are included, the
  ones whose name does not start with a dot otherwise) and whose depth is at most \<open>d\<close>:
  depth \<open>d\<close> itself is kept. With \<^verbatim>\<open>max_depth = 0\<close> every record yielded is the record of a
  regular file that is an entry of the root itself.
\<close>

theorem scan_files_depth_limit:
  assumes "max_depth options = Some d"
  shows "scan_files env None root_dir options =
           List.map_filter (get_file_metadata env root_dir)
             (filter (\<lambda>item. is_file root_dir item \<and> passes_name_filter options item
                        \<and> depth_of item \<le> d)
                (scan_items root_dir options))
         \<and> (d = 0 \<longrightarrow>
              (\<forall>r \<in> set (scan_files env None root_dir options).
                 \<exists>sz mt. RegularFile (filename r) sz mt \<in> set (entries root_dir)
                    \<and> path r = env_root env @ ''/'' @ filename r))"
proof (intro conjI impI ballI)
  show "scan_files env None root_dir options =
           List.map_filter (get_file_metadata env root_dir)
             (filter (\<lambda>item. is_file root_dir item \<and> passes_name_filter options item
                        \<and> depth_of item \<le> d)
                (scan_items root_dir options))"
    unfolding scan_files_not_cancelled assms option.case ..
next
  fix r
  assume "d = 0" and "r \<in> set (scan_files env None root_dir options)"
  with assms show "\<exists>sz mt. RegularFile (filename r) sz mt \<in> set (entries root_dir)
                    \<and> path r = env_root env @ ''/'' @ filename r"
    using scan_files_depth_zero by blast
qed

theorem scan_files_depth_limit_witness:
  "max_depth (ScanOptions_default\<lparr>max_depth := Some 0\<rparr>) = Some 0
   \<and> scan_files env_ex None tree_cache (ScanOptions_default\<lparr>max_depth := Some 0\<rparr>)
       = [FileRecord_create env_ex [''a.jpg''] 1 2000000 GRAPHICS]
   \<and> (\<exists>sz mt. RegularFile ''a.jpg'' sz mt \<in> set (entries tree_cache))
   \<and> path (FileRecord_create env_ex [''a.jpg''] 1 2000000 GRAPHICS) = ''/r/a.jpg''"
proof -
  let ?o = "ScanOptions_default\<lparr>max_depth := Some 0\<rparr>"
  let ?r = "FileRecord_create env_ex [''a.jpg''] 1 2000000 GRAPHICS"
  have h: "max_depth ?o = Some 0" by simp
  have e: "List.map_filter (get_file_metadata env_ex tree_cache)
             (filter (\<lambda>item. is_file tree_cache item \<and> passes_name_filter ?o item
                        \<and> depth_of item \<le> 0)
                (scan_items tree_cache ?o))
           = [?r]"
    by (simp add: scan_items_def ScanOptions_default_def tree_cache_def is_file_def
        passes_name_filter_def depth_of_def startswith_def Path_name_def
        get_file_metadata_def categorize_file_def Path_suffix_def
        get_extensions_def extension_table_def lower_def lower_char_def)
  note inst = scan_files_depth_limit [OF h, of env_ex tree_cache]
  from inst e have s: "scan_files env_ex None tree_cache ?o = [?r]" by simp
  from inst s have "\<exists>sz mt. RegularFile (filename ?r) sz mt \<in> set (entries tree_cache)
      \<and> path ?r = env_root env_ex @ ''/'' @ filename ?r"
    by simp
  moreover have "filename ?r = ''a.jpg''" and "env_root env_ex = ''/r''"
    by (simp_all add: FileRecord_create_def Path_name_def env_ex_def)
  ultimately have "(\<exists>sz mt. RegularFile ''a.jpg'' sz mt \<in> set (entries tree_cache))
      \<and> path ?r = ''/r/a.jpg''"
    by auto
  with h s show ?thesis by blast
qed

theorem scan_files_depth_limit_counterexample:
  "max_depth (ScanOptions_default\<lparr>max_depth := Some 0\<rparr>) = Some 0
   \<and> scan_files env_ex None tree_hidden (ScanOptions_default\<lparr>max_depth := Some 0\<rparr>) = []
   \<and> files_within_depth env_ex tree_hidden 0
       = [FileRecord_create env_ex [''.hidden.png''] 10 5000000 GRAPHICS]"
  by (simp add: scan_files_def scan_items_def scan_item_def ScanOptions_default_def
      tree_hidden_def is_file_def files_within_depth_def regular_files_def
      depth_of_def startswith_def Path_name_def
      get_file_metadata_def categorize_file_def Path_suffix_def
      get_extensions_def extension_table_def lower_def lower_char_def)

lemma scan_item_yields:
  assumes "\<not> include_hidden options"
    and "max_depth options = None \<or> (\<exists>d. max_depth options = Some d \<and> depth_of (dirs @ [name]) \<le> d)"
    and "lookup root_dir (dirs @ [name]) = Some (RegularFile n sz mt)"
    and "\<not> startswith name ''.''"
    and "categorize_file (dirs @ [name]) = Some cat"
  shows "scan_item env root_dir options (dirs @ [name])
           = Some (FileRecord_create env (dirs @ [name]) sz mt cat)"
  using assms
  by (auto simp: scan_item_def is_file_def get_file_metadata_def Path_name_def)

text \<open>
  Claim C9. In a recursive walk that does not include hidden files, the dot test is on the
  entry's own name only. A regular file with a supported extension whose own name does not
  start with a dot is yielded wherever it lies under the root, also below directories whose
  names start with a dot (as long as no depth limit excludes it and the walk is not
  cancelled); the progress pass of \<^verbatim>\<open>run_scan\<close> collects it as well. An entry whose own
  name starts with a dot is skipped.
\<close>

theorem scan_files_hidden_directory:
  "(recursive options \<and> \<not> include_hidden options
      \<and> (max_depth options = None
          \<or> (\<exists>d. max_depth options = Some d \<and> depth_of (dirs @ [name]) \<le> d))
      \<and> lookup root_dir (dirs @ [name]) = Some (RegularFile n sz mt)
      \<and> \<not> startswith name ''.''
      \<and> categorize_file (dirs @ [name]) = Some cat
    \<longrightarrow> FileRecord_create env (dirs @ [name]) sz mt cat
          \<in> set (scan_files env None root_dir options)
        \<and> FileRecord_create env (dirs @ [name]) sz mt cat
          \<in> set (run_scan_collect env root_dir options))
   \<and> (\<not> include_hidden options \<and> startswith (Path_name item) ''.''
    \<longrightarrow> scan_item env root_dir options item = None)"
proof (intro conjI impI)
  assume a: "recursive options \<and> \<not> include_hidden options
      \<and> (max_depth options = None
          \<or> (\<exists>d. max_depth options = Some d \<and> depth_of (dirs @ [name]) \<le> d))
      \<and> lookup root_dir (dirs @ [name]) = Some (RegularFile n sz mt)
      \<and> \<not> startswith name ''.''
      \<and> categorize_file (dirs @ [name]) = Some cat"
  let ?item = "dirs @ [name]"
  from a have l: "lookup root_dir ?item = Some (RegularFile n sz mt)" by blast
  have "?item \<noteq> []" by simp
  from lookup_in_glob_rec [OF this l] a have i: "?item \<in> set (scan_items root_dir options)"
    by (simp add: scan_items_def)
  from a have y: "scan_item env root_dir options ?item
      = Some (FileRecord_create env ?item sz mt cat)"
    by (intro scan_item_yields) blast+
  from i y show "FileRecord_create env ?item sz mt cat
      \<in> set (scan_files env None root_dir options)"
    unfolding scan_files_def Let_def option.case set_map_filter by blast
  from a l have g: "get_file_metadata env root_dir ?item
      = Some (FileRecord_create env ?item sz mt cat)"
    by (simp add: get_file_metadata_def)
  from l have f: "is_file root_dir ?item" by (simp add: is_file_def)
  from a have "\<not> startswith (Path_name ?item) ''.''" by (simp add: Path_name_def)
  with a i f g show "FileRecord_create env ?item sz mt cat
      \<in> set (run_scan_collect env root_dir options)"
    unfolding run_scan_collect_def Let_def set_map_filter by auto
next
  assume "\<not> include_hidden options \<and> startswith (Path_name item) ''.''"
  then show "scan_item env root_dir options item = None"
    by (simp add: scan_item_def)
qed

theorem scan_files_hidden_directory_witness:
  "startswith ''.cache'' ''.''
   \<and> lookup tree_cache [''.cache'', ''b.svg''] = Some (RegularFile ''b.svg'' 3 4000000)
   \<and> FileRecord_create env_ex [''.cache'', ''b.svg''] 3 4000000 VECTOR
        \<in> set (scan_files env_ex None tree_cache ScanOptions_default)
   \<and> FileRecord_create env_ex [''.cache'', ''b.svg''] 3 4000000 VECTOR
        \<in> set (run_scan_collect env_ex tree_cache ScanOptions_default)
   \<and> scan_item env_ex tree_hidden ScanOptions_default [''.hidden.png''] = None"
proof -
  have h1: "recursive ScanOptions_default \<and> \<not> include_hidden ScanOptions_default
      \<and> (max_depth ScanOptions_default = None
          \<or> (\<exists>d. max_depth ScanOptions_default = Some d
                \<and> depth_of ([''.cache''] @ [''b.svg'']) \<le> d))
      \<and> lookup tree_cache ([''.cache''] @ [''b.svg'']) = Some (RegularFile ''b.svg'' 3 4000000)
      \<and> \<not> startswith ''b.svg'' ''.''
      \<and> categorize_file ([''.cache''] @ [''b.svg'']) = Some VECTOR"
    by (simp add: ScanOptions_default_def tree_cache_def startswith_def
        categorize_file_def Path_suffix_def Path_name_def
        get_extensions_def extension_table_def lower_def lower_char_def)
  have h2: "\<not> include_hidden ScanOptions_default
      \<and> startswith (Path_name [''.hidden.png'']) ''.''"
    by (simp add: ScanOptions_default_def startswith_def Path_name_def)
  have s: "startswith ''.cache'' ''.''" by (simp add: startswith_def)
  from h1 h2 s scan_files_hidden_directory
    [where options = ScanOptions_default and dirs = "[''.cache'']" and name = "''b.svg''"
       and root_dir = tree_cache and n = "''b.svg''" and sz = 3 and mt = 4000000
       and cat = VECTOR and env = env_ex]
    scan_files_hidden_directory
    [where options = ScanOptions_default and item = "[''.hidden.png'']"
       and root_dir = tree_hidden and env = env_ex]
  show ?thesis by simp
qed

section \<open>Reconciliation of the existence flags\<close>

lemma insort_key_map_preserve:
  assumes "\<And>x. f (g x) = f x"
  shows "insort_key f (g x) (map g xs) = map g (insort_key f x xs)"
  by (induction xs) (simp_all add: assms)

lemma sort_key_map_preserve:
  assumes "\<And>x. f (g x) = f x"
  shows "sort_key f (map g xs) = map g (sort_key f xs)"
proof (induction xs)
  case Nil
  show ?case by simp
next
  case (Cons x xs)
  have "sort_key f (map g (x # xs)) = insort_key f (g x) (sort_key f (map g xs))" by simp
  also have "\<dots> = insort_key f (g x) (map g (sort_key f xs))" by (simp only: Cons)
  also have "\<dots> = map g (insort_key f x (sort_key f xs))"
    by (rule insort_key_map_preserve) (rule assms)
  finally show ?case by simp
qed

lemma c_id_reconciled: "c_id (reconciled probe x) = c_id x"
  by (simp add: reconciled_def split: sum.splits)

lemma c_path_reconciled: "c_path (reconciled probe x) = c_path x"
  by (simp add: reconciled_def split: sum.splits)

lemma c_id_reconciled_in: "c_id (reconciled_in probe A x) = c_id x"
  by (simp add: reconciled_in_def c_id_reconciled)

lemma c_path_reconciled_in: "c_path (reconciled_in probe A x) = c_path x"
  by (simp add: reconciled_in_def c_path_reconciled)

lemma order_by_id_reconciled_in:
  "order_by_id (map (reconciled_in probe A) t) = map (reconciled_in probe A) (order_by_id t)"
  unfolding order_by_id_def by (rule sort_key_map_preserve) (rule c_id_reconciled_in)

lemma set_order_by_id: "set (order_by_id t) = set t"
  by (simp add: order_by_id_def)

lemma length_order_by_id: "length (order_by_id t) = length t"
  by (simp add: order_by_id_def)

lemma verify_fold:
  "\<exists>u' e'. foldl (verify_step probe) (u, us, e) xs = (u', us @ batch_updates_of probe xs, e')"
proof (induction xs arbitrary: u us e)
  case Nil
  show ?case by (simp add: batch_updates_of_def)
next
  case (Cons x xs)
  obtain u1 us1 e1 where s: "verify_step probe (u, us, e) x = (u1, us1, e1)"
    by (cases "verify_step probe (u, us, e) x") auto
  then have us1: "us1 = us @ batch_updates_of probe [x]"
    by (auto simp: verify_step_def batch_updates_of_def split: sum.splits if_splits)
  from Cons [of u1 us1 e1] obtain u' e'
    where "foldl (verify_step probe) (u1, us1, e1) xs = (u', us1 @ batch_updates_of probe xs, e')"
    by blast
  moreover have "batch_updates_of probe [x] @ batch_updates_of probe xs
      = batch_updates_of probe (x # xs)"
    by (simp add: batch_updates_of_def)
  ultimately show ?case using s us1 by simp
qed

lemma batch_updates_of_append:
  "batch_updates_of probe (xs @ ys) = batch_updates_of probe xs @ batch_updates_of probe ys"
  by (simp add: batch_updates_of_def)

lemma same_id_same_row:
  assumes "distinct (map c_id t0)" and "x \<in> set t0" and "y \<in> set t0" and "c_id x = c_id y"
  shows "x = y"
proof -
  from assms(1) have "inj_on c_id (set t0)" by (simp add: distinct_map)
  with assms(2-4) show ?thesis by (meson inj_onD)
qed

lemma reconcile_one:
  assumes d: "distinct (map c_id t0)" and y: "y \<in> set t0" and sub: "A \<subseteq> A'"
  shows "foldl update_file_exists (map (reconciled_in probe A') t0)
           (batch_updates_of probe [reconciled_in probe A y])
         = map (reconciled_in probe (insert (c_id y) A')) t0"
proof (cases "\<exists>b. probe (c_path y) = Inr b \<and> c_file_exists y \<noteq> b \<and> c_id y \<notin> A")
  case True
  then obtain b where b: "probe (c_path y) = Inr b" "c_file_exists y \<noteq> b" "c_id y \<notin> A"
    by blast
  then have ry: "reconciled_in probe A y = y" by (simp add: reconciled_in_def)
  have upd: "batch_updates_of probe [y] = [(b, c_id y)]"
    using b by (simp add: batch_updates_of_def)
  have rec: "reconciled probe y = y\<lparr>c_file_exists := b\<rparr>"
    using b by (simp add: reconciled_def)
  have "update_file_exists (map (reconciled_in probe A') t0) (b, c_id y)
        = map (reconciled_in probe (insert (c_id y) A')) t0"
    unfolding update_file_exists_def map_map fst_conv snd_conv
  proof (rule map_cong [OF refl])
    fix x
    assume x: "x \<in> set t0"
    show "((\<lambda>x. if c_id x = c_id y then x\<lparr>c_file_exists := b\<rparr> else x)
             \<circ> reconciled_in probe A') x
          = reconciled_in probe (insert (c_id y) A') x"
    proof (cases "c_id x = c_id y")
      case True
      with d x y have "x = y" by (rule same_id_same_row)
      then show ?thesis
        by (simp add: reconciled_in_def c_id_reconciled rec)
    next
      case False
      then show ?thesis by (simp add: reconciled_in_def c_id_reconciled)
    qed
  qed
  then show ?thesis unfolding ry upd by simp
next
  case False
  have none: "batch_updates_of probe [reconciled_in probe A y] = []"
  proof (cases "c_id y \<in> A")
    case True
    then show ?thesis
      by (simp add: batch_updates_of_def reconciled_in_def reconciled_def split: sum.splits)
  next
    case n: False
    with False have "\<not> (\<exists>b. probe (c_path y) = Inr b \<and> c_file_exists y \<noteq> b)" by blast
    with n show ?thesis
      by (auto simp: batch_updates_of_def reconciled_in_def split: sum.splits)
  qed
  have "map (reconciled_in probe A') t0 = map (reconciled_in probe (insert (c_id y) A')) t0"
  proof (rule map_cong [OF refl])
    fix x
    assume x: "x \<in> set t0"
    show "reconciled_in probe A' x = reconciled_in probe (insert (c_id y) A') x"
    proof (cases "c_id x = c_id y")
      case True
      with d x y have xy: "x = y" by (rule same_id_same_row)
      show ?thesis
      proof (cases "c_id y \<in> A")
        case True
        with sub have "c_id y \<in> A'" by blast
        then show ?thesis unfolding xy by (simp add: reconciled_in_def)
      next
        case n: False
        with False have "\<not> (\<exists>b. probe (c_path y) = Inr b \<and> c_file_exists y \<noteq> b)" by blast
        then have "reconciled probe y = y"
          by (auto simp: reconciled_def split: sum.splits)
        then show ?thesis unfolding xy by (simp add: reconciled_in_def)
      qed
    next
      case False
      then show ?thesis by (simp add: reconciled_in_def)
    qed
  qed
  then show ?thesis unfolding none by simp
qed

lemma reconcile_batch:
  assumes d: "distinct (map c_id t0)" and sub: "set B \<subseteq> set t0"
  shows "foldl update_file_exists (map (reconciled_in probe A) t0)
           (batch_updates_of probe (map (reconciled_in probe A) B))
         = map (reconciled_in probe (A \<union> c_id ` set B)) t0"
  using sub
proof (induction B rule: rev_induct)
  case Nil
  show ?case by (simp add: batch_updates_of_def)
next
  case (snoc y B)
  from snoc.prems have y: "y \<in> set t0" and b: "set B \<subseteq> set t0" by simp_all
  have ih: "foldl update_file_exists (map (reconciled_in probe A) t0)
           (batch_updates_of probe (map (reconciled_in probe A) B))
         = map (reconciled_in probe (A \<union> c_id ` set B)) t0"
    by (rule snoc.IH [OF b])
  have s: "A \<union> c_id ` set (B @ [y]) = insert (c_id y) (A \<union> c_id ` set B)" by auto
  have "foldl update_file_exists (map (reconciled_in probe A) t0)
           (batch_updates_of probe (map (reconciled_in probe A) (B @ [y])))
        = foldl update_file_exists (map (reconciled_in probe (A \<union> c_id ` set B)) t0)
            (batch_updates_of probe [reconciled_in probe A y])"
    by (simp only: map_append batch_updates_of_append foldl_append ih list.map)
  also have "\<dots> = map (reconciled_in probe (insert (c_id y) (A \<union> c_id ` set B))) t0"
    by (rule reconcile_one [OF d y]) blast
  finally show ?case unfolding s .
qed

lemma reconciled_in_all:
  assumes "c_id ` set t0 \<subseteq> A"
  shows "map (reconciled_in probe A) t0 = map (reconciled probe) t0"
  using assms by (intro map_cong [OF refl]) (auto simp: reconciled_in_def)

lemma verify_loop_updates:
  assumes bs: "1 \<le> bs" and d: "distinct (map c_id t0)" and off: "0 \<le> off"
    and t: "t = map (reconciled_in probe (c_id ` set (take (nat off) (order_by_id t0)))) t0"
  shows "\<exists>u' e' p'. verify_loop probe False bs (int (length t0)) off t u e p
           = Some (map (reconciled probe) t0, u', e', p')"
  using off t
proof (induction "nat (int (length t0) - off)" arbitrary: off t u e p rule: less_induct)
  case less
  let ?S = "order_by_id t0"
  let ?A = "c_id ` set (take (nat off) ?S)"
  show ?case
  proof (cases "off < int (length t0)")
    case False
    then have "length ?S \<le> nat off" by (simp add: length_order_by_id)
    then have "take (nat off) ?S = ?S" by simp
    then have "c_id ` set t0 \<subseteq> ?A" by (simp add: set_order_by_id)
    then have "t = map (reconciled probe) t0"
      unfolding less.prems(2) by (rule reconciled_in_all)
    with False show ?thesis by (subst verify_loop.simps) simp
  next
    case True
    let ?B = "take (nat bs) (drop (nat off) ?S)"
    let ?batch = "sql_limit_offset bs off (order_by_id t)"
    have batch: "?batch = map (reconciled_in probe ?A) ?B"
      using bs unfolding less.prems(2) order_by_id_reconciled_in
      by (simp add: sql_limit_offset_def take_map drop_map)
    from True less.prems(1) have "nat off < length ?S" by (simp add: length_order_by_id)
    with bs have "?B \<noteq> []" by simp
    with batch have ne: "?batch \<noteq> []" by simp
    obtain u' e' where fold:
      "foldl (verify_step probe) (u, [], e) ?batch = (u', batch_updates_of probe ?batch, e')"
      using verify_fold [of probe u "[]" e ?batch] by auto
    let ?t' = "foldl update_file_exists t (batch_updates_of probe ?batch)"
    have sub: "set ?B \<subseteq> set t0"
      using set_take_subset [of "nat bs" "drop (nat off) ?S"] set_drop_subset [of "nat off" ?S]
      by (auto simp: set_order_by_id)
    have "take (nat (off + bs)) ?S = take (nat off) ?S @ ?B"
      using less.prems(1) bs by (simp add: nat_add_distrib take_add)
    then have un: "?A \<union> c_id ` set ?B = c_id ` set (take (nat (off + bs)) ?S)"
      by (simp add: image_Un)
    have t': "?t' = map (reconciled_in probe (c_id ` set (take (nat (off + bs)) ?S))) t0"
      unfolding batch un [symmetric]
      by (subst less.prems(2)) (rule reconcile_batch [OF d sub])
    have step: "verify_loop probe False bs (int (length t0)) off t u e p
        = verify_loop probe False bs (int (length t0)) (off + bs) ?t' u' e'
            (p + int (length ?batch))"
      using True ne fold by (subst verify_loop.simps) (simp add: Let_def)
    have m: "nat (int (length t0) - (off + bs)) < nat (int (length t0) - off)"
      using True bs by linarith
    have o: "0 \<le> off + bs" using less.prems(1) bs by linarith
    from less.hyps [OF m o t'] show ?thesis unfolding step .
  qed
qed

lemma verify_loop_dry_returns:
  assumes bs: "1 \<le> bs" and off: "0 \<le> off"
  shows "\<exists>u' e' p'. verify_loop probe True bs (int (length t)) off t u e p = Some (t, u', e', p')"
  using off
proof (induction "nat (int (length t) - off)" arbitrary: off u e p rule: less_induct)
  case less
  show ?case
  proof (cases "off < int (length t)")
    case False
    then show ?thesis by (subst verify_loop.simps) simp
  next
    case True
    let ?batch = "sql_limit_offset bs off (order_by_id t)"
    show ?thesis
    proof (cases "?batch = []")
      case e: True
      with True show ?thesis by (subst verify_loop.simps) (simp add: Let_def)
    next
      case ne: False
      obtain u' e' where fold:
        "foldl (verify_step probe) (u, [], e) ?batch = (u', batch_updates_of probe ?batch, e')"
        using verify_fold [of probe u "[]" e ?batch] by auto
      have step: "verify_loop probe True bs (int (length t)) off t u e p
          = verify_loop probe True bs (int (length t)) (off + bs) t u' e'
              (p + int (length ?batch))"
        using True ne fold by (subst verify_loop.simps) (simp add: Let_def)
      have m: "nat (int (length t) - (off + bs)) < nat (int (length t) - off)"
        using True bs by linarith
      have o: "0 \<le> off + bs" using less.prems bs by linarith
      from less.hyps [OF m o] show ?thesis unfolding step .
    qed
  qed
qed

lemma verify_loop_dry_unchanged:
  assumes "verify_loop probe dry bs tot off t u e p = Some y"
  shows "dry \<longrightarrow> fst y = t"
proof (rule verify_loop.raw_induct
    [where P = "\<lambda>probe dry bs tot off t u e p y. dry \<longrightarrow> fst y = t", OF _ assms],
    goal_cases)
  case (1 loop probe dry bs tot off t u e p y)
  show ?case
  proof
    assume dry
    show "fst y = t"
    proof (cases "off < tot")
      case False
      with 1(2) show ?thesis by auto
    next
      case True
      let ?batch = "sql_limit_offset bs off (order_by_id t)"
      show ?thesis
      proof (cases "?batch = []")
        case e: True
        with True 1(2) show ?thesis by (auto simp: Let_def)
      next
        case ne: False
        obtain u' e' where fold:
          "foldl (verify_step probe) (u, [], e) ?batch = (u', batch_updates_of probe ?batch, e')"
          using verify_fold [of probe u "[]" e ?batch] by auto
        from True ne fold 1(2) \<open>dry\<close>
        have "loop probe dry bs tot (off + bs) t u' e' (p + int (length ?batch)) = Some y"
          by (simp add: Let_def)
        from 1(1) [OF this] \<open>dry\<close> show ?thesis by simp
      qed
    qed
  qed
qed

lemma verify_and_update_existence_dry_unchanged:
  assumes "verify_and_update_existence probe True bs t = Some (t', res)"
  shows "t' = t"
proof -
  from assms obtain y where y: "verify_loop probe True bs (int (length t)) 0 t [] [] 0 = Some y"
    and f: "fst y = t'"
    by (auto simp: verify_and_update_existence_def)
  from verify_loop_dry_unchanged [OF y] f show ?thesis by simp
qed

lemma verify_and_update_existence_dry_returns:
  assumes "1 \<le> bs"
  shows "\<exists>res. verify_and_update_existence probe True bs t = Some (t, res)"
proof -
  from verify_loop_dry_returns [OF assms, of 0 probe t "[]" "[]" 0]
  obtain u' e' p' where "verify_loop probe True bs (int (length t)) 0 t [] [] 0
      = Some (t, u', e', p')"
    by auto
  then show ?thesis by (simp add: verify_and_update_existence_def)
qed

lemma verify_and_update_existence_updates:
  assumes "1 \<le> bs" and "table_ok t"
  shows "\<exists>res. verify_and_update_existence probe False bs t
           = Some (map (reconciled probe) t, res)"
proof -
  from assms(2) have d: "distinct (map c_id t)" by (simp add: table_ok_def)
  have "map (reconciled_in probe {}) t = map (\<lambda>x. x) t"
    by (rule map_cong [OF refl]) (simp add: reconciled_in_def)
  then have s: "t = map (reconciled_in probe (c_id ` set (take (nat 0) (order_by_id t)))) t"
    by simp
  from verify_loop_updates [OF assms(1) d _ s, of "[]" "[]" 0]
  obtain u' e' p' where "verify_loop probe False bs (int (length t)) 0 t [] [] 0
      = Some (map (reconciled probe) t, u', e', p')"
    by auto
  then show ?thesis by (simp add: verify_and_update_existence_def)
qed

lemma reconciled_changes_iff:
  "reconciled probe x \<noteq> x \<longleftrightarrow> (\<exists>b. probe (c_path x) = Inr b \<and> c_file_exists x \<noteq> b)"
proof (cases "probe (c_path x)")
  case (Inl e)
  then show ?thesis by (simp add: reconciled_def)
next
  case (Inr b)
  have "x\<lparr>c_file_exists := b\<rparr> \<noteq> x" if "c_file_exists x \<noteq> b"
  proof
    assume "x\<lparr>c_file_exists := b\<rparr> = x"
    then have "c_file_exists (x\<lparr>c_file_exists := b\<rparr>) = c_file_exists x" by simp
    with that show False by simp
  qed
  with Inr show ?thesis by (auto simp: reconciled_def)
qed

lemma reconciled_only_flag:
  "reconciled probe x = x\<lparr>c_file_exists := c_file_exists (reconciled probe x)\<rparr>"
  by (simp add: reconciled_def split: sum.splits)

text \<open>
  Claim C1. A dry run of \<^verbatim>\<open>verify_and_update_existence\<close> leaves the table as it was,
  whatever the batch size, whenever it returns; and for every batch size of at least 1 it
  does return. A real run with a batch size of at least 1 returns the table in which every
  row is \<open>reconciled\<close>: a row is changed exactly when the probe of its path answers and the
  answer differs from the stored flag, and then only its flag changes, to the answer;
  rows whose probe raises are left as they are.
\<close>

theorem verify_and_update_existence_reconciles:
  "(verify_and_update_existence probe True bs t = Some (t', res) \<longrightarrow> t' = t)
   \<and> (1 \<le> bs \<longrightarrow> (\<exists>res. verify_and_update_existence probe True bs t = Some (t, res)))
   \<and> (1 \<le> bs \<and> table_ok t \<longrightarrow>
        (\<exists>res. verify_and_update_existence probe False bs t
                 = Some (map (reconciled probe) t, res)))
   \<and> (reconciled probe x \<noteq> x
        \<longleftrightarrow> (\<exists>b. probe (c_path x) = Inr b \<and> c_file_exists x \<noteq> b))
   \<and> reconciled probe x = x\<lparr>c_file_exists := c_file_exists (reconciled probe x)\<rparr>"
proof (intro conjI impI)
  assume "verify_and_update_existence probe True bs t = Some (t', res)"
  then show "t' = t" by (rule verify_and_update_existence_dry_unchanged)
next
  assume "1 \<le> bs"
  then show "\<exists>res. verify_and_update_existence probe True bs t = Some (t, res)"
    by (rule verify_and_update_existence_dry_returns)
next
  assume "1 \<le> bs \<and> table_ok t"
  then have "1 \<le> bs" and "table_ok t" by simp_all
  then show "\<exists>res. verify_and_update_existence probe False bs t
                 = Some (map (reconciled probe) t, res)"
    by (rule verify_and_update_existence_updates)
next
  show "reconciled probe x \<noteq> x
        \<longleftrightarrow> (\<exists>b. probe (c_path x) = Inr b \<and> c_file_exists x \<noteq> b)"
    by (rule reconciled_changes_iff)
next
  show "reconciled probe x = x\<lparr>c_file_exists := c_file_exists (reconciled probe x)\<rparr>"
    by (rule reconciled_only_flag)
qed

theorem verify_and_update_existence_reconciles_witness:
  "verify_and_update_existence probe_ex True 2 [row_a, row_b, row_c]
     = Some ([row_a, row_b, row_c],
             \<lparr>total_checked = 3, removed_count = 1, removed_files = [''/d/a.png''],
              errors = [''Error checking /d/c.svg: [Errno 13] Permission denied''],
              dry_run = True\<rparr>)
   \<and> (1::int) \<le> 2 \<and> table_ok [row_a, row_b, row_c]
   \<and> (\<exists>res. verify_and_update_existence probe_ex False 2 [row_a, row_b, row_c]
               = Some ([row_a\<lparr>c_file_exists := False\<rparr>, row_b, row_c], res))"
proof -
  let ?t = "[row_a, row_b, row_c]"
  let ?res = "\<lparr>total_checked = 3, removed_count = 1, removed_files = [''/d/a.png''],
              errors = [''Error checking /d/c.svg: [Errno 13] Permission denied''],
              dry_run = True\<rparr>"
  have h1: "verify_and_update_existence probe_ex True 2 ?t = Some (?t, ?res)"
    by code_simp
  have h2: "(1::int) \<le> 2 \<and> table_ok ?t"
    by (simp add: table_ok_def row_a_def row_b_def row_c_def)
  have m: "map (reconciled probe_ex) ?t = [row_a\<lparr>c_file_exists := False\<rparr>, row_b, row_c]"
    by (simp add: reconciled_def probe_ex_def row_a_def row_b_def row_c_def)
  note inst = verify_and_update_existence_reconciles
    [where probe = probe_ex and bs = 2 and t = ?t and t' = ?t and res = ?res]
  from inst h2 have "\<exists>res. verify_and_update_existence probe_ex False 2 ?t
                 = Some (map (reconciled probe_ex) ?t, res)"
    by blast
  then have "\<exists>res. verify_and_update_existence probe_ex False 2 ?t
               = Some ([row_a\<lparr>c_file_exists := False\<rparr>, row_b, row_c], res)"
    by (simp only: m)
  with h1 h2 show ?thesis by blast
qed

section \<open>Destructive cleanup\<close>

lemma cleanup_fold:
  "\<exists>e'. foldl (cleanup_step probe) (r, ids, e) xs
          = (r @ map c_path (filter (missing probe) xs),
             ids @ map c_id (filter (missing probe) xs), e')"
proof (induction xs arbitrary: r ids e)
  case Nil
  show ?case by simp
next
  case (Cons x xs)
  show ?case
  proof (cases "probe (c_path x)")
    case (Inl msg)
    then have "cleanup_step probe (r, ids, e) x
        = (r, ids, e @ [''Error checking '' @ c_path x @ '': '' @ msg])"
      by (simp add: cleanup_step_def)
    moreover from Inl have "\<not> missing probe x" by (simp add: missing_def)
    ultimately show ?thesis
      using Cons [of r ids "e @ [''Error checking '' @ c_path x @ '': '' @ msg]"] by simp
  next
    case (Inr b)
    show ?thesis
    proof (cases b)
      case True
      with Inr have "cleanup_step probe (r, ids, e) x = (r, ids, e)"
        by (simp add: cleanup_step_def)
      moreover from Inr True have "\<not> missing probe x" by (simp add: missing_def)
      ultimately show ?thesis using Cons [of r ids e] by simp
    next
      case False
      with Inr have "cleanup_step probe (r, ids, e) x = (r @ [c_path x], ids @ [c_id x], e)"
        by (simp add: cleanup_step_def)
      moreover from Inr False have "missing probe x" by (simp add: missing_def)
      ultimately show ?thesis using Cons [of "r @ [c_path x]" "ids @ [c_id x]" e] by simp
    qed
  qed
qed

lemma cleanup_loop_dry:
  assumes bs: "1 \<le> bs" and off: "0 \<le> off"
    and r: "removed = r0 @ map c_path (filter (missing probe)
                (take (nat off) (order_by_id (filter c_file_exists t))))"
  shows "\<exists>e' p'. cleanup_loop probe True bs (int (length (filter c_file_exists t))) off t
                   removed e p
           = Some (t, r0 @ map c_path (filter (missing probe)
                         (order_by_id (filter c_file_exists t))), e', p')"
  using off r
proof (induction "nat (int (length (filter c_file_exists t)) - off)"
    arbitrary: off removed e p rule: less_induct)
  case less
  let ?F = "order_by_id (filter c_file_exists t)"
  let ?n = "int (length (filter c_file_exists t))"
  have len: "length ?F = length (filter c_file_exists t)" by (rule length_order_by_id)
  show ?case
  proof (cases "off < ?n")
    case False
    then have "take (nat off) ?F = ?F" using len by simp
    with False less.prems(2) show ?thesis by (subst cleanup_loop.simps) simp
  next
    case True
    let ?batch = "sql_limit_offset bs off ?F"
    have batch: "?batch = take (nat bs) (drop (nat off) ?F)"
      using bs by (simp add: sql_limit_offset_def)
    from True less.prems(1) len have "nat off < length ?F" by simp
    with bs batch have ne: "?batch \<noteq> []" by simp
    obtain e' where fold: "foldl (cleanup_step probe) (removed, [], e) ?batch
        = (removed @ map c_path (filter (missing probe) ?batch),
           [] @ map c_id (filter (missing probe) ?batch), e')"
      using cleanup_fold [of probe removed "[]" e ?batch] by blast
    have step: "cleanup_loop probe True bs ?n off t removed e p
        = cleanup_loop probe True bs ?n (off + bs) t
            (removed @ map c_path (filter (missing probe) ?batch)) e'
            (p + int (length ?batch))"
      using True ne fold by (subst cleanup_loop.simps) (simp add: Let_def)
    have "take (nat (off + bs)) ?F = take (nat off) ?F @ ?batch"
      unfolding batch using less.prems(1) bs by (simp add: nat_add_distrib take_add)
    then have r': "removed @ map c_path (filter (missing probe) ?batch)
        = r0 @ map c_path (filter (missing probe) (take (nat (off + bs)) ?F))"
      unfolding less.prems(2) by simp
    have m: "nat (?n - (off + bs)) < nat (?n - off)" using True bs by linarith
    have o: "0 \<le> off + bs" using less.prems(1) bs by linarith
    from less.hyps [OF m o r'] show ?thesis unfolding step .
  qed
qed

text \<open>
  The dry run of the destructive cleanup, for every batch size of at least 1: it leaves the
  table as it is and lists the path of every record that is flagged as existing and
  probed as missing, in the order of the identifiers.
\<close>

lemma cleanup_database_dry_run:
  assumes "1 \<le> bs"
  shows "\<exists>res. cleanup_database probe True bs t = Some (t, res)
           \<and> removed_files res
               = map c_path (filter (missing probe) (order_by_id (filter c_file_exists t)))
           \<and> dry_run res"
proof -
  have "[] = [] @ map c_path (filter (missing probe)
                (take (nat 0) (order_by_id (filter c_file_exists t))))"
    by simp
  from cleanup_loop_dry [OF assms _ this, of "[]" 0]
  obtain e' p' where "cleanup_loop probe True bs (int (length (filter c_file_exists t))) 0 t
                   [] [] 0
           = Some (t, [] @ map c_path (filter (missing probe)
                         (order_by_id (filter c_file_exists t))), e', p')"
    by auto
  then show ?thesis by (simp add: cleanup_database_def)
qed

text \<open>
  Claim C2 at a store of two records, both flagged as existing, both gone from the disk,
  cleaned up in batches of one. The dry run probes both and lists both paths. The real
  run probes the first record and deletes it; the second batch is then read at offset 1 of
  the one record that is left, which is past its end, so the loop stops: the second record
  was never probed and is still in the store.
\<close>

theorem cleanup_database_skips_after_delete:
  "table_ok [row_a, row_b]
   \<and> c_file_exists row_b \<and> all_gone (c_path row_b) = Inr False
   \<and> cleanup_database all_gone True 1 [row_a, row_b]
       = Some ([row_a, row_b],
               \<lparr>total_checked = 2, removed_count = 2,
                removed_files = [''/d/a.png'', ''/d/b.png''], errors = [], dry_run = True\<rparr>)
   \<and> cleanup_database all_gone False 1 [row_a, row_b]
       = Some ([row_b],
               \<lparr>total_checked = 1, removed_count = 1,
                removed_files = [''/d/a.png''], errors = [], dry_run = False\<rparr>)
   \<and> cleanup_database all_gone False 2 [row_a, row_b]
       = Some ([],
               \<lparr>total_checked = 2, removed_count = 2,
                removed_files = [''/d/a.png'', ''/d/b.png''], errors = [], dry_run = False\<rparr>)"
proof -
  have "table_ok [row_a, row_b]" by (simp add: table_ok_def row_a_def row_b_def)
  moreover have "c_file_exists row_b \<and> all_gone (c_path row_b) = Inr False"
    by (simp add: row_b_def all_gone_def)
  moreover have "cleanup_database all_gone True 1 [row_a, row_b]
       = Some ([row_a, row_b],
               \<lparr>total_checked = 2, removed_count = 2,
                removed_files = [''/d/a.png'', ''/d/b.png''], errors = [], dry_run = True\<rparr>)"
    by code_simp
  moreover have "cleanup_database all_gone False 1 [row_a, row_b]
       = Some ([row_b],
               \<lparr>total_checked = 1, removed_count = 1,
                removed_files = [''/d/a.png''], errors = [], dry_run = False\<rparr>)"
    by code_simp
  moreover have "cleanup_database all_gone False 2 [row_a, row_b]
       = Some ([],
               \<lparr>total_checked = 2, removed_count = 2,
                removed_files = [''/d/a.png'', ''/d/b.png''], errors = [], dry_run = False\<rparr>)"
    by code_simp
  ultimately show ?thesis by blast
qed

end
